theory Spec2Isabelle
  imports Complex_Main "HOL-Library.Char_ord" "HOL-Library.List_Lexorder" "HOL-Library.Multiset"
begin

section \<open>Values exchanged with the page\<close>

text \<open>
  The exporter (\<^verbatim>\<open>export_chatgpt_team.py\<close>) handles the values that
  \<^verbatim>\<open>page.evaluate\<close> hands back from the browser: \<^verbatim>\<open>None\<close>, booleans, numbers,
  strings, lists and dicts. A dict is an association list in the dict's own iteration order
  (a Python dict has no repeated key; lookups below take the first binding). A number is a
  finite number, kept as a rational: Python compares ints and floats by their exact value.
  A string is a list of characters, one character per code point below 256.
\<close>

datatype json =
    JNull
  | JBool bool
  | JNum rat
  | JStr string
  | JList "json list"
  | JObj "(string \<times> json) list"

text \<open>The exceptions that the code of the normalizer can raise.\<close>

datatype error = AttributeError | TypeError

text \<open>Python truth value: what \<^verbatim>\<open>if x\<close>, \<^verbatim>\<open>x or y\<close> and \<^verbatim>\<open>not x\<close> test.\<close>

fun truthy :: "json \<Rightarrow> bool" where
  "truthy JNull = False"
| "truthy (JBool b) = b"
| "truthy (JNum r) = (r \<noteq> 0)"
| "truthy (JStr s) = (s \<noteq> [])"
| "truthy (JList xs) = (xs \<noteq> [])"
| "truthy (JObj kvs) = (kvs \<noteq> [])"

text \<open>\<^verbatim>\<open>x or y\<close>\<close>

definition por :: "json \<Rightarrow> json \<Rightarrow> json" where
  "por x y = (if truthy x then x else y)"

text \<open>\<^verbatim>\<open>d.get(k)\<close> and \<^verbatim>\<open>d.get(k, default)\<close> on a dict.\<close>

definition dict_get_default :: "(string \<times> json) list \<Rightarrow> string \<Rightarrow> json \<Rightarrow> json" where
  "dict_get_default kvs k d = (case map_of kvs k of None \<Rightarrow> d | Some v \<Rightarrow> v)"

definition dict_get :: "(string \<times> json) list \<Rightarrow> string \<Rightarrow> json" where
  "dict_get kvs k = dict_get_default kvs k JNull"

text \<open>
  The attribute lookup \<^verbatim>\<open>x.get\<close> succeeds on a dict only: \<^verbatim>\<open>None\<close>, booleans, numbers,
  strings and lists have no \<^verbatim>\<open>get\<close>, and the call raises \<^verbatim>\<open>AttributeError\<close>.
\<close>

fun get_default :: "json \<Rightarrow> string \<Rightarrow> json \<Rightarrow> error + json" where
  "get_default (JObj kvs) k d = Inr (dict_get_default kvs k d)"
| "get_default _ k d = Inl AttributeError"

definition get :: "json \<Rightarrow> string \<Rightarrow> error + json" where
  "get x k = get_default x k JNull"

text \<open>\<^verbatim>\<open>list(x.values())\<close>: again a dict method.\<close>

fun values_list :: "json \<Rightarrow> error + json list" where
  "values_list (JObj kvs) = Inr (map snd kvs)"
| "values_list _ = Inl AttributeError"

text \<open>Sequencing of computations that may raise.\<close>

definition bind :: "error + 'a \<Rightarrow> ('a \<Rightarrow> error + 'b) \<Rightarrow> error + 'b" where
  "bind m f = (case m of Inl e \<Rightarrow> Inl e | Inr v \<Rightarrow> f v)"

fun mapM :: "('a \<Rightarrow> error + 'b) \<Rightarrow> 'a list \<Rightarrow> error + 'b list" where
  "mapM f [] = Inr []"
| "mapM f (x # xs) = bind (f x) (\<lambda>y. bind (mapM f xs) (\<lambda>ys. Inr (y # ys)))"

subsection \<open>Strings\<close>

text \<open>
  \<^verbatim>\<open>str.strip()\<close> removes leading and trailing whitespace. Below code point 256 Python's
  whitespace characters are 9 to 13, 28 to 32, 133 and 160.
\<close>

definition isspace :: "char \<Rightarrow> bool" where
  "isspace c = (c \<in> set [CHR 0x09, CHR 0x0A, CHR 0x0B, CHR 0x0C, CHR 0x0D,
                          CHR 0x1C, CHR 0x1D, CHR 0x1E, CHR 0x1F, CHR 0x20,
                          CHR 0x85, CHR 0xA0])"

definition strip :: "string \<Rightarrow> string" where
  "strip s = rev (dropWhile isspace (rev (dropWhile isspace s)))"

text \<open>
  \<^verbatim>\<open>"\n".join(chunk)\<close>: every element of the list must be a string, otherwise
  \<^verbatim>\<open>TypeError\<close>.
\<close>

fun as_str :: "json \<Rightarrow> error + string" where
  "as_str (JStr s) = Inr s"
| "as_str _ = Inl TypeError"

fun intercalate :: "string \<Rightarrow> string list \<Rightarrow> string" where
  "intercalate sep [] = []"
| "intercalate sep [s] = s"
| "intercalate sep (s # t # ss) = s @ sep @ intercalate sep (t # ss)"

definition join_newline :: "json list \<Rightarrow> error + string" where
  "join_newline chunk = bind (mapM as_str chunk) (\<lambda>ss. Inr (intercalate [CHR 0x0A] ss))"

section \<open>The shape normalizer\<close>

record message =
  role :: json
  msg_text :: string
  html :: "string option"

record conversation =
  conv_id :: json
  title :: json
  messages :: "message list"
  url :: "string option"

text \<open>
  The loop over \<^verbatim>\<open>parts\<close> (lines 197 to 202): a string part is kept, a dict part with a
  \<^verbatim>\<open>text\<close> key contributes that value (whatever its type), anything else is skipped.
\<close>

fun collect_chunk :: "json list \<Rightarrow> json list" where
  "collect_chunk [] = []"
| "collect_chunk (JStr s # ps) = JStr s # collect_chunk ps"
| "collect_chunk (JObj kvs # ps) =
     (case map_of kvs ''text'' of
        Some v \<Rightarrow> v # collect_chunk ps
      | None \<Rightarrow> collect_chunk ps)"
| "collect_chunk (_ # ps) = collect_chunk ps"

text \<open>
  Lines 192 to 207, for the value \<^verbatim>\<open>content\<close> of line 191. Line 194 calls
  \<^verbatim>\<open>content.get("parts")\<close> before any test of the type of \<^verbatim>\<open>content\<close>.
\<close>

definition extract_text :: "json \<Rightarrow> error + string" where
  "extract_text content =
     bind (get content ''parts'') (\<lambda>parts.
       case parts of
         JList (p # ps) \<Rightarrow>
           bind (join_newline (collect_chunk (p # ps))) (\<lambda>joined. Inr (strip joined))
       | _ \<Rightarrow>
           bind (get content ''text'') (\<lambda>t.
             case t of
               JStr s \<Rightarrow> Inr (strip s)
             | _ \<Rightarrow> (case content of JStr c \<Rightarrow> Inr (strip c) | _ \<Rightarrow> Inr [])))"

text \<open>The loop body, lines 189 to 208, for one node \<^verbatim>\<open>n\<close>.\<close>

definition node_message :: "json \<Rightarrow> error + message" where
  "node_message n =
     bind (get n ''message'') (\<lambda>m0.
       let m = por m0 (JObj []) in
       bind (get m ''author'') (\<lambda>a0.
       bind (get (por a0 (JObj [])) ''role'') (\<lambda>r0.
         let author = por r0 (JStr ''assistant'') in
         bind (get m ''content'') (\<lambda>c0.
           let content = por c0 (JObj []) in
           bind (extract_text content) (\<lambda>t.
             Inr \<lparr>role = author, msg_text = t, html = None\<rparr>)))))"

text \<open>
  The sort key of line 187: \<^verbatim>\<open>n.get("message", {}).get("create_time") or 0\<close>. The default
  \<^verbatim>\<open>{}\<close> is used only when the key \<^verbatim>\<open>message\<close> is absent.
\<close>

definition sort_key_of :: "json \<Rightarrow> error + json" where
  "sort_key_of n =
     bind (get_default n ''message'' (JObj [])) (\<lambda>m.
       bind (get m ''create_time'') (\<lambda>t. Inr (por t (JNum 0))))"

text \<open>
  \<^verbatim>\<open>list.sort(key=...)\<close> computes the key of every element first, then orders the
  elements by comparing keys with \<^verbatim>\<open><\<close>; the sort is stable. Numbers (and \<^verbatim>\<open>True\<close>,
  which is the number 1) compare by value, strings compare lexicographically by code
  point. A list of fewer than two elements is returned without any comparison. For two
  or more elements whose keys are neither all numbers nor all strings the comparison of
  keys raises \<^verbatim>\<open>TypeError\<close>; keys that are lists are counted among those (the service
  sends a number or \<^verbatim>\<open>null\<close> as \<^verbatim>\<open>create_time\<close>).
\<close>

fun num_key :: "json \<Rightarrow> rat option" where
  "num_key (JNum r) = Some r"
| "num_key (JBool b) = Some (if b then 1 else 0)"
| "num_key _ = None"

fun str_key :: "json \<Rightarrow> string option" where
  "str_key (JStr s) = Some s"
| "str_key _ = None"

definition sort_decorated :: "(json \<times> json) list \<Rightarrow> error + json list" where
  "sort_decorated kns =
     (if length kns < 2 then Inr (map snd kns)
      else if list_all (\<lambda>(k, n). num_key k \<noteq> None) kns
        then Inr (map snd (sort_key (\<lambda>(k, n). the (num_key k)) kns))
      else if list_all (\<lambda>(k, n). str_key k \<noteq> None) kns
        then Inr (map snd (sort_key (\<lambda>(k, n). the (str_key k)) kns))
      else Inl TypeError)"

definition sort_nodes :: "json list \<Rightarrow> error + json list" where
  "sort_nodes nodes =
     bind (mapM sort_key_of nodes) (\<lambda>keys. sort_decorated (zip keys nodes))"

text \<open>\<^verbatim>\<open>convert_api_conversation\<close>, lines 174 to 213.\<close>

definition convert_api_conversation :: "json \<Rightarrow> error + conversation" where
  "convert_api_conversation api_obj =
     bind (get api_obj ''id'') (\<lambda>i0.
     bind (get api_obj ''conversation_id'') (\<lambda>i1.
       let cid = por i0 i1 in
       bind (get api_obj ''title'') (\<lambda>t0.
       bind (get api_obj ''current_node'') (\<lambda>t1.
         let ttl = por t0 (por t1 (JStr ''Untitled'')) in
         bind (get api_obj ''mapping'') (\<lambda>m0.
           let mapping = por m0 (JObj []) in
           if truthy mapping then
             bind (values_list mapping) (\<lambda>nodes0.
             bind (sort_nodes nodes0) (\<lambda>nodes.
             bind (mapM node_message nodes) (\<lambda>msgs.
               Inr \<lparr>conv_id = cid, title = ttl, messages = msgs, url = None\<rparr>)))
           else
             Inr \<lparr>conv_id = cid, title = ttl, messages = [], url = None\<rparr>)))))"

subsection \<open>Ordering of the nodes, as specified\<close>

text \<open>
  The creation timestamp of a node as the specification words it: the \<^verbatim>\<open>create_time\<close> of
  the node's message, and 0 when the node has no message, the message has no
  \<^verbatim>\<open>create_time\<close>, or the value is empty (\<^verbatim>\<open>None\<close>, 0, \<^verbatim>\<open>False\<close>, an empty string, list
  or dict).
\<close>

definition timestamp :: "json \<Rightarrow> json" where
  "timestamp n =
     (case n of
        JObj kvs \<Rightarrow>
          (case map_of kvs ''message'' of
             Some (JObj m) \<Rightarrow>
               (case map_of m ''create_time'' of
                  Some t \<Rightarrow> if truthy t then t else JNum 0
                | None \<Rightarrow> JNum 0)
           | _ \<Rightarrow> JNum 0)
      | _ \<Rightarrow> JNum 0)"

text \<open>
  The order in which Python compares two keys without raising: numbers by value, strings
  lexicographically. Two keys tie when each is below the other.
\<close>

definition key_le :: "json \<Rightarrow> json \<Rightarrow> bool" where
  "key_le a b =
     (case (num_key a, num_key b) of
        (Some x, Some y) \<Rightarrow> x \<le> y
      | _ \<Rightarrow> (case (str_key a, str_key b) of (Some s, Some t) \<Rightarrow> s \<le> t | _ \<Rightarrow> False))"

definition key_tie :: "json \<Rightarrow> json \<Rightarrow> bool" where
  "key_tie a b = (key_le a b \<and> key_le b a)"

text \<open>
  The end-to-end scenario of the specification: a detail payload whose node mapping holds
  the assistant's answer (timestamp 2) before the user's question (timestamp 1).
\<close>

definition hello_mapping :: "(string \<times> json) list" where
  "hello_mapping =
     [(''n2'', JObj [(''message'', JObj [(''author'', JObj [(''role'', JStr ''assistant'')]),
                                         (''create_time'', JNum 2),
                                         (''content'', JObj [(''parts'', JList [JStr ''Hello!''])])])]),
      (''n1'', JObj [(''message'', JObj [(''author'', JObj [(''role'', JStr ''user'')]),
                                         (''create_time'', JNum 1),
                                         (''content'', JObj [(''parts'', JList [JStr ''Hi''])])])])]"

definition hello_payload :: "(string \<times> json) list" where
  "hello_payload =
     [(''id'', JStr ''c1''), (''title'', JStr ''Hello''), (''mapping'', JObj hello_mapping)]"

definition hello_conversation :: conversation where
  "hello_conversation =
     \<lparr>conv_id = JStr ''c1'', title = JStr ''Hello'',
      messages = [\<lparr>role = JStr ''user'', msg_text = ''Hi'', html = None\<rparr>,
                  \<lparr>role = JStr ''assistant'', msg_text = ''Hello!'', html = None\<rparr>],
      url = None\<rparr>"

section \<open>The in-page listing and detail calls\<close>

text \<open>
  \<^verbatim>\<open>LIST_JS\<close> and \<^verbatim>\<open>FETCH_ONE_JS\<close> run in the page. Each \<^verbatim>\<open>fetch\<close> of a URL is inside a
  \<^verbatim>\<open>try\<close> with an empty \<^verbatim>\<open>catch\<close>; what one attempt can give is: \<^verbatim>\<open>fetch\<close> throws, the
  response is not \<^verbatim>\<open>ok\<close>, \<^verbatim>\<open>r.json()\<close> throws, or a parsed body.
\<close>

datatype fetched = FetchThrows | NotOk | JsonThrows | Body json

text \<open>
  JavaScript truth value of a parsed body or of one of its properties: unlike in Python,
  every array and every object is true.
\<close>

fun js_truthy :: "json \<Rightarrow> bool" where
  "js_truthy JNull = False"
| "js_truthy (JBool b) = b"
| "js_truthy (JNum r) = (r \<noteq> 0)"
| "js_truthy (JStr s) = (s \<noteq> [])"
| "js_truthy (JList xs) = True"
| "js_truthy (JObj kvs) = True"

text \<open>
  \<^verbatim>\<open>data.items\<close>, \<^verbatim>\<open>data.conversations\<close>, \<^verbatim>\<open>data.has_more\<close>: a property read; the result is
  \<^verbatim>\<open>undefined\<close> (here \<open>None\<close>) when the object has no such property, and for these names
  also when \<^verbatim>\<open>data\<close> is a number, a string, a boolean or an array.
\<close>

fun js_prop :: "json \<Rightarrow> string \<Rightarrow> json option" where
  "js_prop (JObj kvs) k = map_of kvs k"
| "js_prop _ k = None"

definition js_prop_truthy :: "json \<Rightarrow> string \<Rightarrow> bool" where
  "js_prop_truthy d k = (case js_prop d k of None \<Rightarrow> False | Some v \<Rightarrow> js_truthy v)"

text \<open>
  One request round (lines 110 to 120, and 150 to 155): the two URLs are tried in order
  and the first parsed body wins; the second URL is asked only when the first attempt
  gave no body.
\<close>

fun request_round :: "fetched \<times> fetched \<Rightarrow> json option" where
  "request_round (Body d, _) = Some d"
| "request_round (_, Body d) = Some d"
| "request_round _ = None"

text \<open>
  The \<^verbatim>\<open>while (true)\<close> loop of \<^verbatim>\<open>LIST_JS\<close>, lines 109 to 139. The list holds what the
  successive request rounds give, in order; \<^verbatim>\<open>offset\<close> only selects the URL of the next
  round and is not kept. The loop has no bound of its own: \<open>None\<close> says that it is still
  asking for pages when the listed rounds are used up.
\<close>

fun LIST_JS_loop :: "(fetched \<times> fetched) list \<Rightarrow> json list \<Rightarrow> json list option" where
  "LIST_JS_loop [] res = None"
| "LIST_JS_loop (r # rs) res =
     (case request_round r of
        None \<Rightarrow> Some res
      | Some data \<Rightarrow>
          if \<not> js_truthy data then Some res
          else (case js_prop data ''items'' of
                  Some (JList items) \<Rightarrow>
                    if js_prop_truthy data ''has_more''
                    then LIST_JS_loop rs (res @ items)
                    else Some (res @ items)
                | _ \<Rightarrow>
                  (case js_prop data ''conversations'' of
                     Some (JList conversations) \<Rightarrow>
                       if js_prop_truthy data ''has_more''
                       then LIST_JS_loop rs (res @ conversations)
                       else Some (res @ conversations)
                   | _ \<Rightarrow> Some res)))"

definition LIST_JS :: "(fetched \<times> fetched) list \<Rightarrow> json list option" where
  "LIST_JS rounds = LIST_JS_loop rounds []"

text \<open>
  \<^verbatim>\<open>page.evaluate\<close> either raises or returns the value of the script.
  \<^verbatim>\<open>list_conversations_via_api\<close> (lines 160 to 165) and \<^verbatim>\<open>fetch_conversation_via_api\<close>
  (lines 167 to 172) catch every exception of the call.
\<close>

datatype 'a evaluated = EvalRaises | EvalReturns 'a

definition list_conversations_via_api :: "json list evaluated \<Rightarrow> json list" where
  "list_conversations_via_api ev =
     (case ev of
        EvalRaises \<Rightarrow> []
      | EvalReturns items \<Rightarrow> if items \<noteq> [] then items else [])"

definition FETCH_ONE_JS :: "fetched \<times> fetched \<Rightarrow> json" where
  "FETCH_ONE_JS r = (case request_round r of None \<Rightarrow> JNull | Some d \<Rightarrow> d)"

definition fetch_conversation_via_api :: "json evaluated \<Rightarrow> json" where
  "fetch_conversation_via_api ev = (case ev of EvalRaises \<Rightarrow> JNull | EvalReturns data \<Rightarrow> data)"

subsection \<open>Pages, as specified\<close>

text \<open>
  The item array of a page: the \<^verbatim>\<open>items\<close> array, else the legacy \<^verbatim>\<open>conversations\<close> array,
  else none. A round contributes the items of its page, and nothing when no URL answered
  or the body has neither array; the listing goes on after a round exactly when the round
  gave a page with an item array and a true continuation flag.
\<close>

definition page_items :: "json \<Rightarrow> json list option" where
  "page_items data =
     (case js_prop data ''items'' of
        Some (JList items) \<Rightarrow> Some items
      | _ \<Rightarrow> (case js_prop data ''conversations'' of
                Some (JList cs) \<Rightarrow> Some cs
              | _ \<Rightarrow> None))"

definition round_items :: "fetched \<times> fetched \<Rightarrow> json list" where
  "round_items r =
     (case request_round r of
        None \<Rightarrow> []
      | Some data \<Rightarrow>
          if js_truthy data then (case page_items data of None \<Rightarrow> [] | Some xs \<Rightarrow> xs) else [])"

definition continues :: "fetched \<times> fetched \<Rightarrow> bool" where
  "continues r =
     (case request_round r of
        None \<Rightarrow> False
      | Some data \<Rightarrow> js_truthy data \<and> page_items data \<noteq> None \<and> js_prop_truthy data ''has_more'')"

text \<open>
  Three pages for the listing scenario of the specification, with continuation flags true,
  true and false; the second is served by the second URL, in the legacy shape.
\<close>

definition page1 :: "fetched \<times> fetched" where
  "page1 = (Body (JObj [(''items'', JList [JStr ''a'']), (''has_more'', JBool True)]), NotOk)"

definition page2 :: "fetched \<times> fetched" where
  "page2 = (FetchThrows,
            Body (JObj [(''conversations'', JList [JStr ''b'']), (''has_more'', JBool True)]))"

definition page3 :: "fetched \<times> fetched" where
  "page3 = (Body (JObj [(''items'', JList [JStr ''c'']), (''has_more'', JBool False)]), NotOk)"

section \<open>The run: API path and DOM fallback\<close>

text \<open>
  The f-string of line 391 formats \<^verbatim>\<open>cid\<close>: a string is inserted as it is; for any other
  value Python's own rendering is used, which is a parameter here.
\<close>

definition format_value :: "(json \<Rightarrow> string) \<Rightarrow> json \<Rightarrow> string" where
  "format_value py_str v = (case v of JStr s \<Rightarrow> s | _ \<Rightarrow> py_str v)"

text \<open>
  The loop of lines 379 to 392 over the listed items. \<open>page idx cid\<close> is what
  \<^verbatim>\<open>page.evaluate(FETCH_ONE_JS, cid)\<close> does at item number \<open>idx\<close>. An exception of
  \<^verbatim>\<open>it.get\<close> or of the normalizer is not caught and ends the run.
\<close>

fun api_items ::
  "(json \<Rightarrow> string) \<Rightarrow> (nat \<Rightarrow> json \<Rightarrow> json evaluated) \<Rightarrow> nat \<Rightarrow> json list
     \<Rightarrow> error + conversation list" where
  "api_items py_str page idx [] = Inr []"
| "api_items py_str page idx (it # items) =
     bind (get it ''id'') (\<lambda>i0.
     bind (get it ''conversation_id'') (\<lambda>i1.
       let cid = por i0 i1 in
       bind (get it ''title'') (\<lambda>t0.
         let ttl = por t0 (JStr ''Untitled'') in
         if \<not> truthy cid then api_items py_str page (Suc idx) items
         else
           let data = fetch_conversation_via_api (page idx cid) in
           bind (if truthy data then convert_api_conversation data
                 else Inr \<lparr>conv_id = cid, title = ttl, messages = [], url = None\<rparr>) (\<lambda>conv.
           bind (api_items py_str page (Suc idx) items) (\<lambda>convs.
             Inr (conv\<lparr>url := Some (''https://chat.openai.com/c/'' @ format_value py_str cid)\<rparr>
                  # convs))))))"

text \<open>A sidebar link as \<^verbatim>\<open>load_all_chats_dom\<close> collects it (line 280).\<close>

record link =
  href :: string
  link_title :: string

text \<open>\<^verbatim>\<open>s.rsplit("/", 1)[-1]\<close>: what follows the last slash, the whole string without one.\<close>

definition rsplit_last :: "string \<Rightarrow> string" where
  "rsplit_last s = rev (takeWhile (\<lambda>c. c \<noteq> CHR ''/'') (rev s))"

definition link_id :: "link \<Rightarrow> string" where
  "link_id L = rsplit_last (href L)"

text \<open>The de-duplication of lines 283 to 291, with its two variables.\<close>

fun dedup_loop :: "link list \<Rightarrow> string set \<Rightarrow> link list \<Rightarrow> link list" where
  "dedup_loop [] seen_ids uniq = uniq"
| "dedup_loop (L # links) seen_ids uniq =
     (let cid = rsplit_last (href L) in
      if cid \<notin> seen_ids then dedup_loop links (insert cid seen_ids) (uniq @ [L])
      else dedup_loop links seen_ids uniq)"

definition dedup_links :: "link list \<Rightarrow> link list" where
  "dedup_links links = dedup_loop links {} []"

text \<open>
  The loop of lines 401 to 427 over the links. \<open>scrape L\<close> is what the opened page shows:
  the inner text of the first title element that could be read, if any, and the turns that
  \<^verbatim>\<open>extract_turns_dom\<close> returns.
\<close>

fun dom_items ::
  "(link \<Rightarrow> string option \<times> message list) \<Rightarrow> link list \<Rightarrow> conversation list" where
  "dom_items scrape [] = []"
| "dom_items scrape (L # links) =
     (let u = href L;
          cid = rsplit_last u;
          ttl0 = (if link_title L \<noteq> [] then link_title L else ''Untitled'');
          ttl = (case fst (scrape L) of
                   Some t \<Rightarrow> if strip t \<noteq> [] then strip t else ttl0
                 | None \<Rightarrow> ttl0);
          turns = snd (scrape L)
      in \<lparr>conv_id = JStr cid, title = JStr ttl, messages = turns, url = Some u\<rparr>
         # dom_items scrape links)"

text \<open>
  The conversations that \<^verbatim>\<open>main\<close> writes (lines 375 to 429): those of the API path, and
  those of the DOM path when the API path gave none.
\<close>

definition export_conversations ::
  "(json \<Rightarrow> string) \<Rightarrow> (nat \<Rightarrow> json \<Rightarrow> json evaluated) \<Rightarrow> json list
     \<Rightarrow> (link \<Rightarrow> string option \<times> message list) \<Rightarrow> link list
     \<Rightarrow> error + conversation list" where
  "export_conversations py_str page items scrape links =
     bind (api_items py_str page 1 items) (\<lambda>conversations.
       if conversations = [] then Inr (dom_items scrape links) else Inr conversations)"

section \<open>The sidebar scroll loop\<close>

text \<open>
  The loop of \<^verbatim>\<open>load_all_chats_dom\<close>, lines 249 to 266. In one pass the scroll call either
  raises (caught, the loop is left) or succeeds; then the wait and the four counts either
  raise (not caught, the function is left by the exception) or give their sum \<^verbatim>\<open>total\<close>.
\<close>

definition MAX_SCROLL_PASSES :: nat where
  "MAX_SCROLL_PASSES = 80"

datatype observation = ScrollRaises | CountRaises | Total nat

text \<open>How the loop was left.\<close>

datatype loop_exit = Settled | ScrollFailed | PassesUsedUp | Raised

text \<open>
  \<open>scroll_passes env k i seen stable_n\<close>: \<open>k\<close> passes of \<^verbatim>\<open>range(MAX_SCROLL_PASSES)\<close> are
  left, \<open>i\<close> passes were begun, \<open>env i\<close> is what pass \<open>i\<close> observes; \<open>seen\<close> and \<open>stable_n\<close>
  are the variables \<^verbatim>\<open>seen\<close> and \<^verbatim>\<open>stable\<close>. The result is the number of passes begun and
  the way out.
\<close>

fun scroll_passes ::
  "(nat \<Rightarrow> observation) \<Rightarrow> nat \<Rightarrow> nat \<Rightarrow> nat \<Rightarrow> nat \<Rightarrow> nat \<times> loop_exit" where
  "scroll_passes env 0 i seen stable_n = (i, PassesUsedUp)"
| "scroll_passes env (Suc k) i seen stable_n =
     (case env i of
        ScrollRaises \<Rightarrow> (Suc i, ScrollFailed)
      | CountRaises \<Rightarrow> (Suc i, Raised)
      | Total total_n \<Rightarrow>
          if total_n = seen then
            (if stable_n + 1 \<ge> 3 then (Suc i, Settled)
             else scroll_passes env k (Suc i) seen (stable_n + 1))
          else scroll_passes env k (Suc i) total_n 0)"

definition scroll_loop :: "(nat \<Rightarrow> observation) \<Rightarrow> nat \<times> loop_exit" where
  "scroll_loop env = scroll_passes env MAX_SCROLL_PASSES 0 0 0"

subsection \<open>Settling, as specified\<close>

text \<open>
  For the totals \<open>t 0\<close>, \<open>t 1\<close>, ... counted in the successive passes: the count is unchanged
  in pass \<open>i\<close> when it equals the count of the pass before (0 before the first pass); the
  sidebar has settled at pass \<open>i\<close> when the count was unchanged in the three passes \<open>i - 2\<close>,
  \<open>i - 1\<close> and \<open>i\<close>. \<open>run t i\<close> is the number of consecutive unchanged passes just before
  pass \<open>i\<close>.
\<close>

definition previous_total :: "(nat \<Rightarrow> nat) \<Rightarrow> nat \<Rightarrow> nat" where
  "previous_total t i = (if i = 0 then 0 else t (i - 1))"

definition unchanged :: "(nat \<Rightarrow> nat) \<Rightarrow> nat \<Rightarrow> bool" where
  "unchanged t i = (t i = previous_total t i)"

definition settled_at :: "(nat \<Rightarrow> nat) \<Rightarrow> nat \<Rightarrow> bool" where
  "settled_at t i = (2 \<le> i \<and> unchanged t i \<and> unchanged t (i - 1) \<and> unchanged t (i - 2))"

fun run :: "(nat \<Rightarrow> nat) \<Rightarrow> nat \<Rightarrow> nat" where
  "run t 0 = 0"
| "run t (Suc i) = (if unchanged t i then Suc (run t i) else 0)"

section \<open>The normalizer on a heap of objects\<close>

text \<open>
  The model above takes the payload by value. Python passes it by reference: the payload is
  a graph of list and dict objects, and the normalizer allocates objects of its own and
  changes some of them in place (\<^verbatim>\<open>nodes.sort\<close>, \<^verbatim>\<open>chunk.append\<close>, \<^verbatim>\<open>msgs.append\<close>). This
  second model keeps lists and dicts in a heap, addressed by their position; a value is a
  scalar or a reference. Allocation appends to the heap, so an address is never reused.
\<close>

datatype pyval = VNone | VBool bool | VNum rat | VStr string | VRef nat

datatype container = CList "pyval list" | CDict "(string \<times> pyval) list"

type_synonym heap = "container list"

definition alloc :: "container \<Rightarrow> heap \<Rightarrow> pyval \<times> heap" where
  "alloc c h = (VRef (length h), h @ [c])"

text \<open>
  Truth value, \<^verbatim>\<open>x.get(k, d)\<close> and \<^verbatim>\<open>x.get(k)\<close> read the heap; a reference of a Python
  program always points to an object, so \<open>h ! a\<close> is read below the length of \<open>h\<close> only.
\<close>

fun h_truthy :: "heap \<Rightarrow> pyval \<Rightarrow> bool" where
  "h_truthy h VNone = False"
| "h_truthy h (VBool b) = b"
| "h_truthy h (VNum r) = (r \<noteq> 0)"
| "h_truthy h (VStr s) = (s \<noteq> [])"
| "h_truthy h (VRef a) = (case h ! a of CList xs \<Rightarrow> xs \<noteq> [] | CDict kvs \<Rightarrow> kvs \<noteq> [])"

fun h_get_default :: "heap \<Rightarrow> pyval \<Rightarrow> string \<Rightarrow> pyval \<Rightarrow> error + pyval" where
  "h_get_default h (VRef a) k d =
     (case h ! a of
        CDict kvs \<Rightarrow> Inr (case map_of kvs k of None \<Rightarrow> d | Some x \<Rightarrow> x)
      | CList xs \<Rightarrow> Inl AttributeError)"
| "h_get_default h _ k d = Inl AttributeError"

definition h_get :: "heap \<Rightarrow> pyval \<Rightarrow> string \<Rightarrow> error + pyval" where
  "h_get h x k = h_get_default h x k VNone"

text \<open>
  A computation takes the heap and returns its result, or the exception, with the new heap.
\<close>

definition hbind ::
  "(error + 'a) \<times> heap \<Rightarrow> ('a \<Rightarrow> heap \<Rightarrow> (error + 'b) \<times> heap) \<Rightarrow> (error + 'b) \<times> heap" where
  "hbind m f = (case m of (Inl e, h) \<Rightarrow> (Inl e, h) | (Inr v, h) \<Rightarrow> f v h)"

text \<open>
  \<^verbatim>\<open>x or {}\<close> allocates the empty dict only when \<^verbatim>\<open>x\<close> is false; \<^verbatim>\<open>x or y\<close> for a \<^verbatim>\<open>y\<close> that
  is at hand; \<^verbatim>\<open>xs.append(v)\<close> changes the list object at its address.
\<close>

definition h_or_empty_dict :: "pyval \<Rightarrow> heap \<Rightarrow> pyval \<times> heap" where
  "h_or_empty_dict x h = (if h_truthy h x then (x, h) else alloc (CDict []) h)"

definition h_or :: "heap \<Rightarrow> pyval \<Rightarrow> pyval \<Rightarrow> pyval" where
  "h_or h x y = (if h_truthy h x then x else y)"

definition append_h :: "nat \<Rightarrow> pyval \<Rightarrow> heap \<Rightarrow> heap" where
  "append_h a v h = (case h ! a of CList xs \<Rightarrow> h[a := CList (xs @ [v])] | CDict kvs \<Rightarrow> h)"

text \<open>
  The sort key (line 187): the lookup of \<^verbatim>\<open>n.get\<close> comes first and raises for a node that
  is no dict; then the default \<^verbatim>\<open>{}\<close> is allocated, whether it is used or not.
\<close>

definition sort_key_of_h :: "pyval \<Rightarrow> heap \<Rightarrow> (error + pyval) \<times> heap" where
  "sort_key_of_h n h =
     (case h_get h n ''message'' of
        Inl e \<Rightarrow> (Inl e, h)
      | Inr _ \<Rightarrow>
          (case alloc (CDict []) h of (d, h1) \<Rightarrow>
             hbind (h_get_default h1 n ''message'' d, h1) (\<lambda>m h2.
             hbind (h_get h2 m ''create_time'', h2) (\<lambda>t h3.
               (Inr (h_or h3 t (VNum 0)), h3)))))"

fun keys_h :: "pyval list \<Rightarrow> heap \<Rightarrow> (error + pyval list) \<times> heap" where
  "keys_h [] h = (Inr [], h)"
| "keys_h (n # ns) h =
     hbind (sort_key_of_h n h) (\<lambda>k h1.
     hbind (keys_h ns h1) (\<lambda>ks h2. (Inr (k # ks), h2)))"

text \<open>
  \<^verbatim>\<open>nodes.sort(key=...)\<close> computes all keys, then replaces the contents of the list object
  at address \<open>a\<close> by the sorted contents. When a key or a comparison raises, the list is
  left as it was here (it is not used again after the exception).
\<close>

fun num_key_v :: "pyval \<Rightarrow> rat option" where
  "num_key_v (VNum r) = Some r"
| "num_key_v (VBool b) = Some (if b then 1 else 0)"
| "num_key_v _ = None"

fun str_key_v :: "pyval \<Rightarrow> string option" where
  "str_key_v (VStr s) = Some s"
| "str_key_v _ = None"

definition sort_decorated_v :: "(pyval \<times> pyval) list \<Rightarrow> error + pyval list" where
  "sort_decorated_v kns =
     (if length kns < 2 then Inr (map snd kns)
      else if list_all (\<lambda>(k, n). num_key_v k \<noteq> None) kns
        then Inr (map snd (sort_key (\<lambda>(k, n). the (num_key_v k)) kns))
      else if list_all (\<lambda>(k, n). str_key_v k \<noteq> None) kns
        then Inr (map snd (sort_key (\<lambda>(k, n). the (str_key_v k)) kns))
      else Inl TypeError)"

definition list_sort_h :: "nat \<Rightarrow> heap \<Rightarrow> (error + unit) \<times> heap" where
  "list_sort_h a h =
     (case h ! a of
        CList ns \<Rightarrow>
          hbind (keys_h ns h) (\<lambda>ks h1.
            case sort_decorated_v (zip ks ns) of
              Inl e \<Rightarrow> (Inl e, h1)
            | Inr ns' \<Rightarrow> (Inr (), h1[a := CList ns']))
      | CDict kvs \<Rightarrow> (Inl AttributeError, h))"

text \<open>
  The loop over \<^verbatim>\<open>parts\<close> (lines 198 to 202) appends to the list object \<^verbatim>\<open>chunk\<close> at
  address \<open>c\<close>; lines 192 to 207 allocate that list when \<^verbatim>\<open>parts\<close> is a non-empty list.
\<close>

fun chunk_loop :: "pyval list \<Rightarrow> nat \<Rightarrow> heap \<Rightarrow> heap" where
  "chunk_loop [] c h = h"
| "chunk_loop (VStr s # ps) c h = chunk_loop ps c (append_h c (VStr s) h)"
| "chunk_loop (VRef b # ps) c h =
     (case h ! b of
        CDict kvs \<Rightarrow>
          (case map_of kvs ''text'' of
             Some v \<Rightarrow> chunk_loop ps c (append_h c v h)
           | None \<Rightarrow> chunk_loop ps c h)
      | CList xs \<Rightarrow> chunk_loop ps c h)"
| "chunk_loop (_ # ps) c h = chunk_loop ps c h"

fun as_str_v :: "pyval \<Rightarrow> error + string" where
  "as_str_v (VStr s) = Inr s"
| "as_str_v _ = Inl TypeError"

definition join_newline_v :: "pyval list \<Rightarrow> error + string" where
  "join_newline_v chunk = bind (mapM as_str_v chunk) (\<lambda>ss. Inr (intercalate [CHR 0x0A] ss))"

definition nonempty_list_at :: "heap \<Rightarrow> pyval \<Rightarrow> pyval list option" where
  "nonempty_list_at h v =
     (case v of
        VRef a \<Rightarrow> (case h ! a of CList (p # ps) \<Rightarrow> Some (p # ps) | _ \<Rightarrow> None)
      | _ \<Rightarrow> None)"

definition extract_text_h :: "pyval \<Rightarrow> heap \<Rightarrow> (error + string) \<times> heap" where
  "extract_text_h content h =
     hbind (h_get h content ''parts'', h) (\<lambda>parts h.
       case nonempty_list_at h parts of
         Some ps \<Rightarrow>
           (case alloc (CList []) h of (chunk, h1) \<Rightarrow>
              let c = length h; h2 = chunk_loop ps c h1 in
              (case h2 ! c of
                 CList xs \<Rightarrow>
                   (case join_newline_v xs of
                      Inl e \<Rightarrow> (Inl e, h2)
                    | Inr joined \<Rightarrow> (Inr (strip joined), h2))
               | CDict kvs \<Rightarrow> (Inl TypeError, h2)))
       | None \<Rightarrow>
           hbind (h_get h content ''text'', h) (\<lambda>t h.
             case t of
               VStr s \<Rightarrow> (Inr (strip s), h)
             | _ \<Rightarrow> (case content of VStr c \<Rightarrow> (Inr (strip c), h) | _ \<Rightarrow> (Inr [], h))))"

text \<open>
  The loop body (lines 189 to 208) up to the message dict, which is a new object; the
  loop (line 188) appends each message dict to the list \<^verbatim>\<open>msgs\<close> at address \<open>am\<close>.
\<close>

definition node_message_h :: "pyval \<Rightarrow> heap \<Rightarrow> (error + pyval) \<times> heap" where
  "node_message_h n h =
     hbind (h_get h n ''message'', h) (\<lambda>m0 h.
       case h_or_empty_dict m0 h of (m, h) \<Rightarrow>
       hbind (h_get h m ''author'', h) (\<lambda>a0 h.
       case h_or_empty_dict a0 h of (a, h) \<Rightarrow>
       hbind (h_get h a ''role'', h) (\<lambda>r0 h.
         let author = h_or h r0 (VStr ''assistant'') in
         hbind (h_get h m ''content'', h) (\<lambda>c0 h.
           case h_or_empty_dict c0 h of (content, h) \<Rightarrow>
           hbind (extract_text_h content h) (\<lambda>t h.
             case alloc (CDict [(''role'', author), (''text'', VStr t), (''html'', VNone)]) h of
               (d, h) \<Rightarrow> (Inr d, h))))))"

fun nodes_loop :: "pyval list \<Rightarrow> nat \<Rightarrow> heap \<Rightarrow> (error + unit) \<times> heap" where
  "nodes_loop [] am h = (Inr (), h)"
| "nodes_loop (n # ns) am h =
     hbind (node_message_h n h) (\<lambda>d h1. nodes_loop ns am (append_h am d h1))"

text \<open>
  Lines 186 to 208 for the value \<^verbatim>\<open>mapping\<close>: \<^verbatim>\<open>list(mapping.values())\<close> is a new list object
  holding the references of the nodes; it is sorted in place and traversed. Line 213
  allocates the result dict. \<^verbatim>\<open>convert_api_conversation\<close> as a whole: \<^verbatim>\<open>msgs = []\<close> of line
  181 is allocated before the mapping is read, and line 211 allocates another empty list.
\<close>

definition mapping_messages_h :: "pyval \<Rightarrow> nat \<Rightarrow> heap \<Rightarrow> (error + unit) \<times> heap" where
  "mapping_messages_h mapping am h =
     (case mapping of
        VRef a \<Rightarrow>
          (case h ! a of
             CDict kvs \<Rightarrow>
               (case alloc (CList (map snd kvs)) h of (nodes, h1) \<Rightarrow>
                  let an = length h in
                  hbind (list_sort_h an h1) (\<lambda>_ h2.
                    case h2 ! an of
                      CList ns \<Rightarrow> nodes_loop ns am h2
                    | CDict _ \<Rightarrow> (Inl TypeError, h2)))
           | CList xs \<Rightarrow> (Inl AttributeError, h))
      | _ \<Rightarrow> (Inl AttributeError, h))"

definition result_dict_h :: "pyval \<Rightarrow> pyval \<Rightarrow> pyval \<Rightarrow> heap \<Rightarrow> (error + pyval) \<times> heap" where
  "result_dict_h cid ttl msgs h =
     (case alloc (CDict [(''id'', cid), (''title'', ttl), (''messages'', msgs)]) h of
        (r, h1) \<Rightarrow> (Inr r, h1))"

definition convert_h :: "pyval \<Rightarrow> heap \<Rightarrow> (error + pyval) \<times> heap" where
  "convert_h api_obj h =
     hbind (h_get h api_obj ''id'', h) (\<lambda>i0 h.
     hbind (h_get h api_obj ''conversation_id'', h) (\<lambda>i1 h.
       let cid = h_or h i0 i1 in
       hbind (h_get h api_obj ''title'', h) (\<lambda>t0 h.
       hbind (h_get h api_obj ''current_node'', h) (\<lambda>t1 h.
         let ttl = h_or h t0 (h_or h t1 (VStr ''Untitled'')); am = length h in
         case alloc (CList []) h of (msgs, h) \<Rightarrow>
         hbind (h_get h api_obj ''mapping'', h) (\<lambda>m0 h.
           case h_or_empty_dict m0 h of (mapping, h) \<Rightarrow>
           if h_truthy h mapping then
             hbind (mapping_messages_h mapping am h) (\<lambda>_ h. result_dict_h cid ttl msgs h)
           else
             (case alloc (CList []) h of (msgs, h) \<Rightarrow> result_dict_h cid ttl msgs h))))))"

subsection \<open>What a heap value stands for\<close>

text \<open>
  \<open>repr h v j\<close>: in the heap \<open>h\<close> the value \<open>v\<close>, with everything it refers to, is the JSON
  value \<open>j\<close>. \<open>reads_as\<close> decides it for a given depth. A conversation record and a message
  are the dicts that line 213 and line 208 build (without \<^verbatim>\<open>url\<close>, which \<^verbatim>\<open>main\<close> adds).
\<close>

inductive repr :: "heap \<Rightarrow> pyval \<Rightarrow> json \<Rightarrow> bool" for h where
  repr_None: "repr h VNone JNull"
| repr_Bool: "repr h (VBool b) (JBool b)"
| repr_Num: "repr h (VNum r) (JNum r)"
| repr_Str: "repr h (VStr s) (JStr s)"
| repr_List: "a < length h \<Longrightarrow> h ! a = CList vs \<Longrightarrow> list_all2 (repr h) vs js
              \<Longrightarrow> repr h (VRef a) (JList js)"
| repr_Dict: "a < length h \<Longrightarrow> h ! a = CDict kvs
              \<Longrightarrow> list_all2 (\<lambda>kv kj. fst kv = fst kj \<and> repr h (snd kv) (snd kj)) kvs kjs
              \<Longrightarrow> repr h (VRef a) (JObj kjs)"

primrec reads_as :: "nat \<Rightarrow> heap \<Rightarrow> pyval \<Rightarrow> json \<Rightarrow> bool" where
  "reads_as 0 h = (\<lambda>v j. False)"
| "reads_as (Suc n) h =
     (\<lambda>v j. case v of
        VNone \<Rightarrow> j = JNull
      | VBool b \<Rightarrow> j = JBool b
      | VNum r \<Rightarrow> j = JNum r
      | VStr s \<Rightarrow> j = JStr s
      | VRef a \<Rightarrow>
          a < length h \<and>
          (case h ! a of
             CList vs \<Rightarrow>
               (case j of JList js \<Rightarrow> list_all2 (reads_as n h) vs js | _ \<Rightarrow> False)
           | CDict kvs \<Rightarrow>
               (case j of
                  JObj kjs \<Rightarrow>
                    list_all2 (\<lambda>kv kj. fst kv = fst kj \<and> reads_as n h (snd kv) (snd kj)) kvs kjs
                | _ \<Rightarrow> False)))"

definition msg_json :: "message \<Rightarrow> json" where
  "msg_json m = JObj [(''role'', role m), (''text'', JStr (msg_text m)),
                      (''html'', case html m of None \<Rightarrow> JNull | Some s \<Rightarrow> JStr s)]"

definition conv_json :: "conversation \<Rightarrow> json" where
  "conv_json c = JObj [(''id'', conv_id c), (''title'', title c),
                       (''messages'', JList (map msg_json (messages c)))]"

text \<open>
  \<open>ext h h'\<close>: every object of \<open>h\<close> is in \<open>h'\<close>, at its address and unchanged. \<open>pv h0 h w j\<close>:
  the value \<open>w\<close> is a value of the payload heap \<open>h0\<close>, or one of the empty dicts allocated
  since. \<open>msg_at\<close> and \<open>loop_post\<close> describe a message dict in the heap and the state after
  the loop over the nodes; \<open>pure_messages\<close> is the part of the value-level normalizer that
  the loop corresponds to.
\<close>

definition ext :: "heap \<Rightarrow> heap \<Rightarrow> bool" where
  "ext h h' = (length h \<le> length h' \<and> (\<forall>a < length h. h' ! a = h ! a))"

definition pv :: "heap \<Rightarrow> heap \<Rightarrow> pyval \<Rightarrow> json \<Rightarrow> bool" where
  "pv h0 h w j =
     (repr h0 w j
      \<or> (\<exists>a. w = VRef a \<and> length h0 \<le> a \<and> a < length h \<and> h ! a = CDict [] \<and> j = JObj []))"

definition msg_at :: "heap \<Rightarrow> heap \<Rightarrow> nat \<Rightarrow> pyval \<Rightarrow> message \<Rightarrow> bool" where
  "msg_at h0 h am d m =
     (\<exists>a r. d = VRef a \<and> length h0 \<le> a \<and> a < length h \<and> a \<noteq> am
        \<and> h ! a = CDict [(''role'', r), (''text'', VStr (msg_text m)), (''html'', VNone)]
        \<and> repr h0 r (role m) \<and> html m = None)"

definition loop_post ::
  "heap \<Rightarrow> heap \<Rightarrow> nat \<Rightarrow> message list \<Rightarrow> json list \<Rightarrow> error + unit \<Rightarrow> heap \<Rightarrow> bool" where
  "loop_post h0 h am ms0 jns res h' =
     (ext h0 h' \<and> length h \<le> length h'
      \<and> (\<forall>b < length h. b \<noteq> am \<longrightarrow> h' ! b = h ! b)
      \<and> (case res of
           Inl e \<Rightarrow> mapM node_message jns = Inl e
         | Inr u \<Rightarrow>
             \<exists>ds' ms. mapM node_message jns = Inr ms \<and> h' ! am = CList ds'
               \<and> list_all2 (msg_at h0 h' am) ds' (ms0 @ ms)))"

definition pure_messages :: "json \<Rightarrow> error + message list" where
  "pure_messages jm =
     bind (values_list jm) (\<lambda>nodes0. bind (sort_nodes nodes0) (\<lambda>nodes. mapM node_message nodes))"

text \<open>
  The scenario payload as a heap of twelve objects, and two calls of the normalizer on it,
  the second in the heap that the first has left.
\<close>

definition hello_heap :: heap where
  "hello_heap =
     [CDict [(''id'', VStr ''c1''), (''title'', VStr ''Hello''), (''mapping'', VRef 1)],
      CDict [(''n2'', VRef 2), (''n1'', VRef 7)],
      CDict [(''message'', VRef 3)],
      CDict [(''author'', VRef 4), (''create_time'', VNum 2), (''content'', VRef 5)],
      CDict [(''role'', VStr ''assistant'')],
      CDict [(''parts'', VRef 6)],
      CList [VStr ''Hello!''],
      CDict [(''message'', VRef 8)],
      CDict [(''author'', VRef 9), (''create_time'', VNum 1), (''content'', VRef 10)],
      CDict [(''role'', VStr ''user'')],
      CDict [(''parts'', VRef 11)],
      CList [VStr ''Hi'']]"

definition hello_first :: "(error + pyval) \<times> heap" where
  "hello_first = convert_h (VRef 0) hello_heap"

definition hello_second :: "(error + pyval) \<times> heap" where
  "hello_second = convert_h (VRef 0) (snd hello_first)"

section \<open>Properties of the normalizer\<close>

lemma bind_Inr_iff: "bind m f = Inr y \<longleftrightarrow> (\<exists>v. m = Inr v \<and> f v = Inr y)"
  by (cases m) (simp_all add: bind_def)

lemma mapM_Inr_all2: "mapM f xs = Inr ys \<Longrightarrow> list_all2 (\<lambda>x y. f x = Inr y) xs ys"
  by (induction xs arbitrary: ys) (auto simp: bind_Inr_iff)

lemma sort_key_of_timestamp: "sort_key_of n = Inr k \<Longrightarrow> k = timestamp n"
  by (cases n)
     (auto simp: sort_key_of_def timestamp_def bind_Inr_iff get_def dict_get_default_def por_def
           split: option.splits json.splits)

lemma keys_are_timestamps:
  "mapM sort_key_of nodes = Inr keys \<Longrightarrow> keys = map timestamp nodes"
proof (induction nodes arbitrary: keys)
  case Nil
  then show ?case by simp
next
  case (Cons n nodes)
  then show ?case by (auto simp: bind_Inr_iff dest: sort_key_of_timestamp)
qed

lemma insort_key_map:
  "insort_key f (h x) (map h xs) = map h (insort_key (\<lambda>y. f (h y)) x xs)"
  by (induction xs) simp_all

lemma sort_key_map: "sort_key f (map h xs) = map h (sort_key (\<lambda>y. f (h y)) xs)"
  by (induction xs) (simp_all add: insort_key_map)

lemma zip_decorate: "zip (map g xs) xs = map (\<lambda>x. (g x, x)) xs"
  by (induction xs) simp_all

lemma sort_nodes_cases:
  assumes "sort_nodes nodes = Inr ns"
  shows "(length nodes < 2 \<and> ns = nodes)
       \<or> (2 \<le> length nodes \<and> (\<forall>n \<in> set nodes. num_key (timestamp n) \<noteq> None)
            \<and> ns = sort_key (\<lambda>n. the (num_key (timestamp n))) nodes)
       \<or> (2 \<le> length nodes \<and> (\<forall>n \<in> set nodes. str_key (timestamp n) \<noteq> None)
            \<and> ns = sort_key (\<lambda>n. the (str_key (timestamp n))) nodes)"
proof -
  from assms obtain keys where k: "mapM sort_key_of nodes = Inr keys"
    and d: "sort_decorated (zip keys nodes) = Inr ns"
    by (auto simp: sort_nodes_def bind_Inr_iff)
  have z: "zip keys nodes = map (\<lambda>n. (timestamp n, n)) nodes"
    using keys_are_timestamps [OF k] by (simp add: zip_decorate)
  show ?thesis
    using d unfolding z sort_decorated_def
    by (auto simp: sort_key_map list_all_iff o_def split: if_splits)
qed

lemma str_not_num: "str_key k = Some s \<Longrightarrow> num_key k = None"
  by (cases k) simp_all

lemma num_not_str: "num_key k = Some x \<Longrightarrow> str_key k = None"
  by (cases k) simp_all

lemma key_le_num [simp]:
  "num_key a = Some x \<Longrightarrow> num_key b = Some y \<Longrightarrow> key_le a b \<longleftrightarrow> x \<le> y"
  by (simp add: key_le_def)

lemma key_le_str [simp]:
  "str_key a = Some s \<Longrightarrow> str_key b = Some t \<Longrightarrow> key_le a b \<longleftrightarrow> s \<le> t"
  by (simp add: key_le_def str_not_num)

lemma key_le_num_other [simp]:
  "num_key a = Some x \<Longrightarrow> num_key b = None \<Longrightarrow> \<not> key_le a b"
  "num_key a = Some x \<Longrightarrow> num_key b = None \<Longrightarrow> \<not> key_le b a"
  by (simp_all add: key_le_def num_not_str split: option.splits)

lemma sorted_by_num:
  assumes "\<forall>n \<in> set nodes. num_key (timestamp n) \<noteq> None"
  shows "sorted_wrt (\<lambda>a b. key_le (timestamp a) (timestamp b))
           (sort_key (\<lambda>n. the (num_key (timestamp n))) nodes)"
proof -
  let ?f = "\<lambda>n. the (num_key (timestamp n))"
  have "sorted (map ?f (sort_key ?f nodes))" by simp
  then have "sorted_wrt (\<lambda>a b. ?f a \<le> ?f b) (sort_key ?f nodes)"
    by (simp add: sorted_wrt_map)
  then show ?thesis
  proof (rule sorted_wrt_mono_rel [rotated])
    fix a b
    assume "a \<in> set (sort_key ?f nodes)" "b \<in> set (sort_key ?f nodes)" and le: "?f a \<le> ?f b"
    with assms have "num_key (timestamp a) \<noteq> None" "num_key (timestamp b) \<noteq> None"
      by simp_all
    then obtain x y where "num_key (timestamp a) = Some x" "num_key (timestamp b) = Some y"
      by blast
    with le show "key_le (timestamp a) (timestamp b)" by simp
  qed
qed

lemma sorted_by_str:
  assumes "\<forall>n \<in> set nodes. str_key (timestamp n) \<noteq> None"
  shows "sorted_wrt (\<lambda>a b. key_le (timestamp a) (timestamp b))
           (sort_key (\<lambda>n. the (str_key (timestamp n))) nodes)"
proof -
  let ?f = "\<lambda>n. the (str_key (timestamp n))"
  have "sorted (map ?f (sort_key ?f nodes))" by simp
  then have "sorted_wrt (\<lambda>a b. ?f a \<le> ?f b) (sort_key ?f nodes)"
    by (simp add: sorted_wrt_map)
  then show ?thesis
  proof (rule sorted_wrt_mono_rel [rotated])
    fix a b
    assume "a \<in> set (sort_key ?f nodes)" "b \<in> set (sort_key ?f nodes)" and le: "?f a \<le> ?f b"
    with assms have "str_key (timestamp a) \<noteq> None" "str_key (timestamp b) \<noteq> None"
      by simp_all
    then obtain x y where "str_key (timestamp a) = Some x" "str_key (timestamp b) = Some y"
      by blast
    with le show "key_le (timestamp a) (timestamp b)" by simp
  qed
qed

lemma filter_eq_on_set:
  assumes "set xs = set ys" and "\<And>x. x \<in> set ys \<Longrightarrow> P x = Q x"
    and "filter Q xs = filter Q ys"
  shows "filter P xs = filter P ys"
proof -
  have "filter P xs = filter Q xs" using assms(1,2) by (intro filter_cong) auto
  moreover have "filter P ys = filter Q ys" using assms(2) by (intro filter_cong) auto
  ultimately show ?thesis using assms(3) by simp
qed

lemma stable_by_num:
  assumes "\<forall>n \<in> set nodes. num_key (timestamp n) \<noteq> None"
  shows "filter (\<lambda>n. key_tie (timestamp n) k) (sort_key (\<lambda>n. the (num_key (timestamp n))) nodes)
       = filter (\<lambda>n. key_tie (timestamp n) k) nodes"
proof (cases "num_key k")
  case None
  have "\<not> key_tie (timestamp n) k" if "n \<in> set nodes" for n
  proof -
    from that assms obtain x where "num_key (timestamp n) = Some x" by auto
    with None show ?thesis by (simp add: key_tie_def)
  qed
  then show ?thesis by (simp add: filter_False)
next
  case (Some v)
  let ?f = "\<lambda>n. the (num_key (timestamp n))"
  show ?thesis
  proof (rule filter_eq_on_set [where Q = "\<lambda>n. ?f n = v"])
    show "set (sort_key ?f nodes) = set nodes" by simp
    show "key_tie (timestamp x) k = (?f x = v)" if "x \<in> set nodes" for x
    proof -
      from that assms obtain y where "num_key (timestamp x) = Some y" by auto
      with Some show ?thesis by (auto simp: key_tie_def)
    qed
    show "filter (\<lambda>n. ?f n = v) (sort_key ?f nodes) = filter (\<lambda>n. ?f n = v) nodes"
      by (rule sort_key_stable)
  qed
qed

lemma stable_by_str:
  assumes "\<forall>n \<in> set nodes. str_key (timestamp n) \<noteq> None"
  shows "filter (\<lambda>n. key_tie (timestamp n) k) (sort_key (\<lambda>n. the (str_key (timestamp n))) nodes)
       = filter (\<lambda>n. key_tie (timestamp n) k) nodes"
proof (cases "str_key k")
  case None
  have "\<not> key_tie (timestamp n) k" if "n \<in> set nodes" for n
  proof -
    from that assms obtain x where "str_key (timestamp n) = Some x" by auto
    with None show ?thesis
      by (cases "num_key k") (simp_all add: key_tie_def key_le_def str_not_num)
  qed
  then show ?thesis by (simp add: filter_False)
next
  case (Some v)
  let ?f = "\<lambda>n. the (str_key (timestamp n))"
  show ?thesis
  proof (rule filter_eq_on_set [where Q = "\<lambda>n. ?f n = v"])
    show "set (sort_key ?f nodes) = set nodes" by simp
    show "key_tie (timestamp x) k = (?f x = v)" if "x \<in> set nodes" for x
    proof -
      from that assms obtain y where "str_key (timestamp x) = Some y" by auto
      with Some show ?thesis by (auto simp: key_tie_def)
    qed
    show "filter (\<lambda>n. ?f n = v) (sort_key ?f nodes) = filter (\<lambda>n. ?f n = v) nodes"
      by (rule sort_key_stable)
  qed
qed

lemma short_list_sorted: "length xs < 2 \<Longrightarrow> sorted_wrt R xs"
  by (cases xs rule: list.exhaust [case_product list.exhaust]) (auto simp: neq_Nil_conv)

lemma sort_nodes_sorted_stable:
  assumes "sort_nodes nodes = Inr ns"
  shows "mset ns = mset nodes
       \<and> sorted_wrt (\<lambda>a b. key_le (timestamp a) (timestamp b)) ns
       \<and> (\<forall>k. filter (\<lambda>n. key_tie (timestamp n) k) ns
              = filter (\<lambda>n. key_tie (timestamp n) k) nodes)"
  using sort_nodes_cases [OF assms]
  by (auto simp: sorted_by_num sorted_by_str stable_by_num stable_by_str short_list_sorted)



text \<open>
  C1: the normalizer is not total. A node whose \<^verbatim>\<open>message\<close> is \<^verbatim>\<open>null\<close> makes the sort key
  of line 187 call \<^verbatim>\<open>get\<close> on \<^verbatim>\<open>None\<close>, which raises \<^verbatim>\<open>AttributeError\<close>, although the
  loop body (line 189) replaces such a message by an empty dict.
\<close>

theorem convert_raises_on_null_message:
  "convert_api_conversation
     (JObj [(''id'', JStr ''c1''), (''title'', JStr ''Hello''),
            (''mapping'', JObj [(''root'', JObj [(''message'', JNull)])])])
   = Inl AttributeError"
  by code_simp

text \<open>
  C2: a content that is itself the bare string \<^verbatim>\<open>y\<close> does not yield \<^verbatim>\<open>y\<close>: line 194 calls
  \<^verbatim>\<open>get\<close> on the string before line 206 tests for a string, and the call raises.
\<close>

theorem bare_string_content_raises:
  "convert_api_conversation
     (JObj [(''id'', JStr ''c1''),
            (''mapping'', JObj [(''n1'', JObj [(''message'', JObj [(''content'', JStr ''y'')])])])])
   = Inl AttributeError"
  by code_simp

text \<open>The other three cases of the text extraction give the expected texts.\<close>

lemma extract_text_examples:
  "extract_text (JObj [(''parts'', JList [JStr ''a'', JObj [(''text'', JStr ''b'')]])])
     = Inr [CHR ''a'', CHR 0x0A, CHR ''b'']"
  "extract_text (JObj [(''text'', JStr ''x'')]) = Inr ''x''"
  "extract_text (JObj []) = Inr []"
  "extract_text (JStr ''y'') = Inl AttributeError"
  by code_simp+

text \<open>
  C6: when the node mapping is absent, \<^verbatim>\<open>null\<close> or the empty dict, the normalizer returns
  the header-only record: id and title from the payload, no message.
\<close>

theorem no_mapping_header_only:
  assumes "map_of p ''mapping'' = None \<or> map_of p ''mapping'' = Some JNull
         \<or> map_of p ''mapping'' = Some (JObj [])"
  shows "convert_api_conversation (JObj p)
       = Inr \<lparr>conv_id = por (dict_get p ''id'') (dict_get p ''conversation_id''),
              title = por (dict_get p ''title'')
                        (por (dict_get p ''current_node'') (JStr ''Untitled'')),
              messages = [], url = None\<rparr>"
proof -
  from assms have "\<not> truthy (por (dict_get_default p ''mapping'' JNull) (JObj []))"
    by (auto simp: dict_get_default_def por_def)
  then show ?thesis
    by (simp add: convert_api_conversation_def get_def bind_def dict_get_def)
qed

text \<open>A payload whose mapping is \<^verbatim>\<open>null\<close>.\<close>

theorem no_mapping_header_only_witness:
  "convert_api_conversation (JObj [(''id'', JStr ''c1''), (''mapping'', JNull)])
   = Inr \<lparr>conv_id = JStr ''c1'', title = JStr ''Untitled'', messages = [], url = None\<rparr>"
  using no_mapping_header_only [of "[(''id'', JStr ''c1''), (''mapping'', JNull)]"]
  by (simp add: dict_get_def dict_get_default_def por_def)

text \<open>
  C10: for a content dict with a \<^verbatim>\<open>parts\<close> list, the parts are joined only when the list
  is not empty; with the empty list the text is the trimmed \<^verbatim>\<open>text\<close> field when that is
  a string, and the empty string otherwise.
\<close>

theorem empty_parts_falls_through:
  assumes "map_of c ''parts'' = Some (JList ps)"
  shows "extract_text (JObj c)
       = (if ps = []
          then Inr (case map_of c ''text'' of Some (JStr s) \<Rightarrow> strip s | _ \<Rightarrow> [])
          else bind (join_newline (collect_chunk ps)) (\<lambda>joined. Inr (strip joined)))"
  using assms
  by (cases ps)
     (auto simp: extract_text_def get_def dict_get_default_def bind_def
           split: option.splits json.splits)

text \<open>An empty \<^verbatim>\<open>parts\<close> list beside a \<^verbatim>\<open>text\<close> field.\<close>

theorem empty_parts_falls_through_witness:
  "extract_text (JObj [(''parts'', JList []), (''text'', JStr '' x '')]) = Inr ''x''"
  using empty_parts_falls_through [of "[(''parts'', JList []), (''text'', JStr '' x '')]" "[]"]
  by (simp add: strip_def isspace_def)

section \<open>Properties of the run\<close>

text \<open>
  C3: an exported record can have an empty id. The listing gives the item \<^verbatim>\<open>c1\<close>; the
  detail call answers with a payload that has a title and an empty mapping but neither
  \<^verbatim>\<open>id\<close> nor \<^verbatim>\<open>conversation_id\<close>. The record takes its id from the payload (line 176), so
  the id is \<^verbatim>\<open>None\<close>, although the listed id is at hand and is used for the \<^verbatim>\<open>url\<close> (line 391)
  and for the header-only record (line 390).
\<close>

theorem exported_id_can_be_null:
  "export_conversations py_str
     (\<lambda>idx cid. EvalReturns (JObj [(''title'', JStr ''Hello''), (''mapping'', JObj [])]))
     [JObj [(''id'', JStr ''c1''), (''title'', JStr ''Hello'')]]
     scrape links
   = Inr [\<lparr>conv_id = JNull, title = JStr ''Hello'', messages = [],
           url = Some ''https://chat.openai.com/c/c1''\<rparr>]"
  by (simp add: export_conversations_def get_def dict_get_default_def bind_def por_def
        fetch_conversation_via_api_def convert_api_conversation_def format_value_def)

text \<open>On the DOM path a link whose address ends with a slash gives the empty id.\<close>

lemma dom_id_can_be_empty:
  "map conv_id
     (dom_items scrape [\<lparr>href = ''https://chat.openai.com/c/abc/'', link_title = ''T''\<rparr>])
   = [JStr []]"
  by (simp add: rsplit_last_def Let_def)

section \<open>Properties of the listing\<close>

lemma LIST_JS_loop_step:
  "LIST_JS_loop (r # rs) res =
     (if continues r then LIST_JS_loop rs (res @ round_items r) else Some (res @ round_items r))"
  by (cases "request_round r")
     (auto simp: continues_def round_items_def page_items_def
           split: option.splits json.splits)

lemma LIST_JS_loop_concat:
  assumes "list_all continues ps" and "\<not> continues stop"
  shows "LIST_JS_loop (ps @ stop # rest) res
       = Some (res @ concat (map round_items ps) @ round_items stop)"
  using assms
proof (induction ps arbitrary: res)
  case Nil
  then show ?case by (simp add: LIST_JS_loop_step del: LIST_JS_loop.simps)
next
  case (Cons p ps)
  then show ?case by (simp add: LIST_JS_loop_step del: LIST_JS_loop.simps)
qed

lemma failed_round_gives_nothing:
  "request_round r = None \<Longrightarrow> \<not> continues r \<and> round_items r = []"
  by (simp add: continues_def round_items_def)

lemma unknown_shape_gives_nothing:
  "request_round r = Some d \<Longrightarrow> page_items d = None \<Longrightarrow> \<not> continues r \<and> round_items r = []"
  by (simp add: continues_def round_items_def)

text \<open>
  C5: when the rounds \<open>ps\<close> all give a page with a true continuation flag and the round
  \<open>stop\<close> after them does not, the listing returns the items of the pages of \<open>ps\<close> and of
  \<open>stop\<close>, concatenated in order, and asks for nothing after \<open>stop\<close> (the result does not
  depend on \<open>rest\<close>). The round \<open>stop\<close> adds nothing when neither URL gave a body (a
  thrown \<^verbatim>\<open>fetch\<close>, a bad status, or unreadable JSON) or when the body has neither the
  \<^verbatim>\<open>items\<close> nor the \<^verbatim>\<open>conversations\<close> array: the listing then ends with what it had. The
  Python caller hands the list on, and returns the empty list when the call into the page
  raises.
\<close>

theorem listing_returns_concatenation:
  assumes "list_all continues ps"
    and "\<not> continues stop"
  shows "LIST_JS (ps @ stop # rest) = Some (concat (map round_items ps) @ round_items stop)
       \<and> list_conversations_via_api
           (EvalReturns (concat (map round_items ps) @ round_items stop))
         = concat (map round_items ps) @ round_items stop
       \<and> list_conversations_via_api EvalRaises = []
       \<and> (request_round stop = None \<or> (\<exists>d. request_round stop = Some d \<and> page_items d = None)
            \<longrightarrow> round_items stop = [])"
proof -
  have "LIST_JS (ps @ stop # rest) = Some (concat (map round_items ps) @ round_items stop)"
    using LIST_JS_loop_concat [OF assms, of rest "[]"] by (simp add: LIST_JS_def)
  moreover have "list_conversations_via_api (EvalReturns xs) = xs" for xs
    by (simp add: list_conversations_via_api_def)
  moreover have "list_conversations_via_api EvalRaises = []"
    by (simp add: list_conversations_via_api_def)
  moreover have "request_round stop = None \<or> (\<exists>d. request_round stop = Some d \<and> page_items d = None)
            \<longrightarrow> round_items stop = []"
    using failed_round_gives_nothing unknown_shape_gives_nothing by blast
  ultimately show ?thesis by simp
qed

text \<open>Pages with continuation flags true, true, false: all three are listed, then the loop stops.\<close>

theorem listing_returns_concatenation_witness:
  "LIST_JS ([page1, page2] @ page3 # [page1]) = Some [JStr ''a'', JStr ''b'', JStr ''c'']"
proof -
  have h1: "list_all continues [page1, page2]"
    by (simp add: continues_def page1_def page2_def page_items_def js_prop_truthy_def)
  have h2: "\<not> continues page3"
    by (simp add: continues_def page3_def page_items_def js_prop_truthy_def)
  have "round_items page1 = [JStr ''a'']" "round_items page2 = [JStr ''b'']"
       "round_items page3 = [JStr ''c'']"
    by (simp_all add: round_items_def page1_def page2_def page3_def page_items_def)
  with listing_returns_concatenation [OF h1 h2, of "[page1]"] show ?thesis by simp
qed

text \<open>A body of an unknown shape, or a round in which every request throws, ends the listing.\<close>

lemma listing_stops_on_unknown_shape:
  "LIST_JS ([page1, (Body (JObj [(''detail'', JStr ''x'')]), NotOk)] @ rest) = Some [JStr ''a'']"
  by (simp add: LIST_JS_def page1_def js_prop_truthy_def)

lemma listing_stops_on_error:
  "LIST_JS ([page1, (FetchThrows, FetchThrows)] @ rest) = Some [JStr ''a'']"
  by (simp add: LIST_JS_def page1_def js_prop_truthy_def)

section \<open>Properties of the link de-duplication\<close>

lemma dedup_loop_snoc:
  "dedup_loop (ls @ [L]) seen uniq =
     (if link_id L \<in> seen \<union> link_id ` set ls
      then dedup_loop ls seen uniq
      else dedup_loop ls seen uniq @ [L])"
proof (induction ls arbitrary: seen uniq)
  case Nil
  then show ?case by (simp add: link_id_def)
next
  case (Cons M ls)
  then show ?case by (auto simp: link_id_def Let_def)
qed

text \<open>
  C8: the de-duplication keys a link by the last path segment of its address. Going through
  the links in order, a link is dropped when an earlier link has the same key, and is
  appended to the result otherwise: exactly the first link of each key is kept, in the
  order of the first occurrences.
\<close>

theorem dedup_keeps_first_occurrences:
  "dedup_links [] = []
   \<and> dedup_links (ls @ [L]) =
       (if link_id L \<in> link_id ` set ls then dedup_links ls else dedup_links ls @ [L])"
  by (simp add: dedup_links_def dedup_loop_snoc)

text \<open>
  Three links, the third with the key of the first under another path: the third is
  dropped, the first and second are kept in order.
\<close>

theorem dedup_keeps_first_occurrences_witness:
  "dedup_links
     [\<lparr>href = ''https://chat.openai.com/c/abc'', link_title = ''First''\<rparr>,
      \<lparr>href = ''https://chat.openai.com/c/xyz'', link_title = ''Other''\<rparr>,
      \<lparr>href = ''https://chat.openai.com/g/g-1/c/abc'', link_title = ''Again''\<rparr>]
   = [\<lparr>href = ''https://chat.openai.com/c/abc'', link_title = ''First''\<rparr>,
      \<lparr>href = ''https://chat.openai.com/c/xyz'', link_title = ''Other''\<rparr>]"
proof -
  let ?a = "\<lparr>href = ''https://chat.openai.com/c/abc'', link_title = ''First''\<rparr>"
  let ?b = "\<lparr>href = ''https://chat.openai.com/c/xyz'', link_title = ''Other''\<rparr>"
  let ?c = "\<lparr>href = ''https://chat.openai.com/g/g-1/c/abc'', link_title = ''Again''\<rparr>"
  have ids: "link_id ?a = ''abc''" "link_id ?b = ''xyz''" "link_id ?c = ''abc''"
    by (simp_all add: link_id_def rsplit_last_def)
  have two: "dedup_links [?a, ?b] = [?a, ?b]"
    by (simp add: dedup_links_def rsplit_last_def Let_def)
  have "dedup_links ([?a, ?b] @ [?c]) = dedup_links [?a, ?b]"
    using dedup_keeps_first_occurrences [of "[?a, ?b]" ?c] ids by simp
  with two show ?thesis by simp
qed

section \<open>Properties of the scroll loop\<close>

lemma run_le: "run t i \<le> i"
  by (induction i) auto

lemma run_ge_3_iff: "3 \<le> run t (Suc i) \<longleftrightarrow> settled_at t i"
proof (cases i)
  case 0
  then show ?thesis by (simp add: settled_at_def)
next
  case (Suc j)
  show ?thesis
  proof (cases j)
    case 0
    with Suc show ?thesis by (simp add: settled_at_def)
  next
    case (Suc l)
    with \<open>i = Suc j\<close> show ?thesis
      by (auto simp: settled_at_def numeral_3_eq_3)
  qed
qed

lemma scroll_passes_bound: "fst (scroll_passes env k i seen stable_n) \<le> i + k"
proof (induction k arbitrary: i seen stable_n)
  case 0
  then show ?case by simp
next
  case (Suc k)
  have a: "fst (scroll_passes env k (Suc i) s st) \<le> Suc (i + k)" for s st
    using Suc [of "Suc i" s st] by simp
  show ?case by (cases "env i") (simp_all add: a)
qed

lemma scroll_passes_settles:
  assumes "\<forall>j. i0 \<le> j \<and> j \<le> i \<longrightarrow> env j = Total (t j)"
    and "seen = previous_total t i0" and "stable_n = run t i0"
    and "\<forall>j. i0 \<le> j \<and> j < i \<longrightarrow> run t (Suc j) < 3"
    and "3 \<le> run t (Suc i)" and "i0 \<le> i" and "i < i0 + k"
  shows "scroll_passes env k i0 seen stable_n = (Suc i, Settled)"
  using assms
proof (induction k arbitrary: i0 seen stable_n)
  case 0
  then show ?case by simp
next
  case (Suc k)
  have e: "env i0 = Total (t i0)" using Suc.prems(1,6) by simp
  show ?case
  proof (cases "i0 = i")
    case True
    with Suc.prems(5) have u: "unchanged t i0" and r: "3 \<le> Suc (run t i0)"
      by (auto split: if_splits)
    from u Suc.prems(2) have "t i0 = seen" by (simp add: unchanged_def)
    with e r Suc.prems(3) True show ?thesis by simp
  next
    case False
    with Suc.prems(6) have lt: "i0 < i" by simp
    then have small: "run t (Suc i0) < 3" using Suc.prems(4) by simp
    have pt: "previous_total t (Suc i0) = t i0" by (simp add: previous_total_def)
    have rest: "scroll_passes env k (Suc i0) (t i0) (run t (Suc i0)) = (Suc i, Settled)"
    proof (rule Suc.IH)
      show "\<forall>j. Suc i0 \<le> j \<and> j \<le> i \<longrightarrow> env j = Total (t j)" using Suc.prems(1) by simp
      show "t i0 = previous_total t (Suc i0)" by (simp add: pt)
      show "run t (Suc i0) = run t (Suc i0)" by simp
      show "\<forall>j. Suc i0 \<le> j \<and> j < i \<longrightarrow> run t (Suc j) < 3" using Suc.prems(4) by simp
      show "3 \<le> run t (Suc i)" by (rule Suc.prems(5))
      show "Suc i0 \<le> i" using lt by simp
      show "i < Suc i0 + k" using Suc.prems(7) by simp
    qed
    show ?thesis
    proof (cases "unchanged t i0")
      case True
      then have "t i0 = seen" using Suc.prems(2) by (simp add: unchanged_def)
      moreover have "run t (Suc i0) = Suc stable_n" using True Suc.prems(3) by simp
      ultimately show ?thesis using e small rest by simp
    next
      case False
      then have "t i0 \<noteq> seen" using Suc.prems(2) by (simp add: unchanged_def)
      moreover have "run t (Suc i0) = 0" using False by simp
      ultimately show ?thesis using e rest by simp
    qed
  qed
qed

lemma scroll_passes_used_up:
  assumes "\<forall>j. i0 \<le> j \<and> j < i0 + k \<longrightarrow> env j = Total (t j) \<and> run t (Suc j) < 3"
    and "seen = previous_total t i0" and "stable_n = run t i0"
  shows "scroll_passes env k i0 seen stable_n = (i0 + k, PassesUsedUp)"
  using assms
proof (induction k arbitrary: i0 seen stable_n)
  case 0
  then show ?case by simp
next
  case (Suc k)
  have e: "env i0 = Total (t i0)" and small: "run t (Suc i0) < 3" using Suc.prems(1) by simp_all
  have pt: "previous_total t (Suc i0) = t i0" by (simp add: previous_total_def)
  have rest: "scroll_passes env k (Suc i0) (t i0) (run t (Suc i0)) = (Suc i0 + k, PassesUsedUp)"
  proof (rule Suc.IH)
    show "\<forall>j. Suc i0 \<le> j \<and> j < Suc i0 + k \<longrightarrow> env j = Total (t j) \<and> run t (Suc j) < 3"
      using Suc.prems(1) by simp
    show "t i0 = previous_total t (Suc i0)" by (simp add: pt)
    show "run t (Suc i0) = run t (Suc i0)" by simp
  qed
  show ?case
  proof (cases "unchanged t i0")
    case True
    then have "t i0 = seen" using Suc.prems(2) by (simp add: unchanged_def)
    moreover have "run t (Suc i0) = Suc stable_n" using True Suc.prems(3) by simp
    ultimately show ?thesis using e small rest by simp
  next
    case False
    then have "t i0 \<noteq> seen" using Suc.prems(2) by (simp add: unchanged_def)
    moreover have "run t (Suc i0) = 0" using False by simp
    ultimately show ?thesis using e rest by simp
  qed
qed

text \<open>
  C9: the scroll loop ends after at most \<^verbatim>\<open>MAX_SCROLL_PASSES\<close> passes, whatever the page
  does. When the passes up to pass \<open>i\<close> all give a count and pass \<open>i\<close> is the first at which
  the count has been unchanged for three consecutive passes, the loop ends with that pass
  (\<open>i + 1\<close> passes made). When no pass below the cap settles, all passes of the cap are made.
\<close>

theorem scroll_loop_bounded_and_prompt:
  "fst (scroll_loop env) \<le> MAX_SCROLL_PASSES
   \<and> ((\<forall>j \<le> i. env j = Total (t j)) \<and> i < MAX_SCROLL_PASSES
        \<and> settled_at t i \<and> (\<forall>j < i. \<not> settled_at t j)
      \<longrightarrow> scroll_loop env = (Suc i, Settled))
   \<and> ((\<forall>j < MAX_SCROLL_PASSES. env j = Total (t j) \<and> \<not> settled_at t j)
      \<longrightarrow> scroll_loop env = (MAX_SCROLL_PASSES, PassesUsedUp))"
proof (intro conjI impI)
  show "fst (scroll_loop env) \<le> MAX_SCROLL_PASSES"
    using scroll_passes_bound [of env MAX_SCROLL_PASSES 0 0 0] by (simp add: scroll_loop_def)
next
  assume a: "(\<forall>j \<le> i. env j = Total (t j)) \<and> i < MAX_SCROLL_PASSES
        \<and> settled_at t i \<and> (\<forall>j < i. \<not> settled_at t j)"
  show "scroll_loop env = (Suc i, Settled)"
    unfolding scroll_loop_def
  proof (rule scroll_passes_settles [where t = t])
    show "\<forall>j. 0 \<le> j \<and> j \<le> i \<longrightarrow> env j = Total (t j)" using a by simp
    show "0 = previous_total t 0" by (simp add: previous_total_def)
    show "0 = run t 0" by simp
    show "\<forall>j. 0 \<le> j \<and> j < i \<longrightarrow> run t (Suc j) < 3"
      using a run_ge_3_iff [of t] by (auto simp: not_le [symmetric])
    show "3 \<le> run t (Suc i)" using a run_ge_3_iff [of t i] by blast
    show "0 \<le> i" by simp
    show "i < 0 + MAX_SCROLL_PASSES" using a by simp
  qed
next
  assume a: "\<forall>j < MAX_SCROLL_PASSES. env j = Total (t j) \<and> \<not> settled_at t j"
  have "scroll_passes env MAX_SCROLL_PASSES 0 0 0 = (0 + MAX_SCROLL_PASSES, PassesUsedUp)"
  proof (rule scroll_passes_used_up [where t = t])
    show "\<forall>j. 0 \<le> j \<and> j < 0 + MAX_SCROLL_PASSES \<longrightarrow> env j = Total (t j) \<and> run t (Suc j) < 3"
      using a run_ge_3_iff [of t] by (auto simp: not_le [symmetric])
    show "0 = previous_total t 0" by (simp add: previous_total_def)
    show "0 = run t 0" by simp
  qed
  then show "scroll_loop env = (MAX_SCROLL_PASSES, PassesUsedUp)"
    by (simp add: scroll_loop_def)
qed

text \<open>
  A sidebar that always shows five links settles at the fourth pass; one that grows in
  every pass uses all passes.
\<close>

theorem scroll_loop_bounded_and_prompt_witness:
  "scroll_loop (\<lambda>j. Total 5) = (4, Settled)
   \<and> scroll_loop (\<lambda>j. Total (Suc j)) = (MAX_SCROLL_PASSES, PassesUsedUp)
   \<and> fst (scroll_loop (\<lambda>j. Total 5)) \<le> MAX_SCROLL_PASSES"
proof -
  have s3: "settled_at (\<lambda>j. 5) 3"
    by (simp add: settled_at_def unchanged_def previous_total_def)
  have n3: "\<forall>j < 3. \<not> settled_at (\<lambda>j. 5) j"
    by (auto simp: settled_at_def unchanged_def previous_total_def)
  have a: "scroll_loop (\<lambda>j. Total 5) = (Suc 3, Settled)"
    using scroll_loop_bounded_and_prompt [of "\<lambda>j. Total 5" 3 "\<lambda>j. 5"] s3 n3
    by (simp add: MAX_SCROLL_PASSES_def)
  have never: "\<forall>j < MAX_SCROLL_PASSES. \<not> settled_at Suc j"
    by (auto simp: settled_at_def unchanged_def previous_total_def)
  have b: "scroll_loop (\<lambda>j. Total (Suc j)) = (MAX_SCROLL_PASSES, PassesUsedUp)"
    using scroll_loop_bounded_and_prompt [of "\<lambda>j. Total (Suc j)" 0 Suc] never by simp
  have c: "fst (scroll_loop (\<lambda>j. Total 5)) \<le> MAX_SCROLL_PASSES"
    using scroll_loop_bounded_and_prompt [of "\<lambda>j. Total 5" 0 "\<lambda>j. 5"] by simp
  from a b c show ?thesis by simp
qed

text \<open>An exception in the second pass ends the loop there.\<close>

lemma scroll_loop_stops_on_exception:
  "scroll_loop (\<lambda>j. if j = 1 then ScrollRaises else Total 7) = (2, ScrollFailed)"
  "scroll_loop (\<lambda>j. if j = 1 then CountRaises else Total 7) = (2, Raised)"
  by (simp_all add: scroll_loop_def MAX_SCROLL_PASSES_def eval_nat_numeral)

section \<open>Properties of the normalizer on the heap\<close>

lemma ext_refl [simp]: "ext h h"
  by (simp add: ext_def)

lemma ext_trans: "ext h1 h2 \<Longrightarrow> ext h2 h3 \<Longrightarrow> ext h1 h3"
  by (auto simp: ext_def)

lemma ext_append [simp]: "ext h (h @ xs)"
  by (simp add: ext_def nth_append)

lemma ext_alloc: "alloc c h = (v, h') \<Longrightarrow> ext h h'"
  by (auto simp: alloc_def)

lemma ext_update: "ext h0 h \<Longrightarrow> length h0 \<le> b \<Longrightarrow> ext h0 (h[b := c])"
  by (auto simp: ext_def)

lemma ext_length: "ext h h' \<Longrightarrow> length h \<le> length h'"
  by (simp add: ext_def)

lemma ext_nth: "ext h h' \<Longrightarrow> a < length h \<Longrightarrow> h' ! a = h ! a"
  by (simp add: ext_def)

lemma repr_ext: "repr h w j \<Longrightarrow> ext h h' \<Longrightarrow> repr h' w j"
proof (induction rule: repr.induct)
  case (repr_List a vs js)
  have "list_all2 (repr h') vs js"
    using repr_List.IH repr_List.prems by (auto elim!: list_all2_mono)
  with repr_List.hyps repr_List.prems show ?case
    by (auto intro!: repr.repr_List simp: ext_def)
next
  case (repr_Dict a kvs kjs)
  have "list_all2 (\<lambda>kv kj. fst kv = fst kj \<and> repr h' (snd kv) (snd kj)) kvs kjs"
    using repr_Dict.IH repr_Dict.prems by (auto elim!: list_all2_mono)
  with repr_Dict.hyps repr_Dict.prems show ?case
    by (auto intro!: repr.repr_Dict simp: ext_def)
qed (auto intro: repr.intros)

lemma pv_repr: "repr h0 w j \<Longrightarrow> pv h0 h w j"
  by (simp add: pv_def)

lemma pv_ext: "pv h0 h w j \<Longrightarrow> ext h h' \<Longrightarrow> pv h0 h' w j"
  by (auto simp: pv_def ext_def)

lemma map_of_all2:
  "list_all2 (\<lambda>kv kj. fst kv = fst kj \<and> R (snd kv) (snd kj)) kvs kjs
   \<Longrightarrow> rel_option R (map_of kvs k) (map_of kjs k)"
  by (induction rule: list_all2_induct) auto

lemma truthy_repr: "repr h v p \<Longrightarrow> h_truthy h v = truthy p"
  by (induction rule: repr.cases) (auto dest: list_all2_lengthD)

lemma truthy_pv: "pv h0 h v p \<Longrightarrow> ext h0 h \<Longrightarrow> h_truthy h v = truthy p"
  unfolding pv_def
proof (elim disjE exE conjE)
  assume "repr h0 v p" "ext h0 h"
  then have "repr h v p" by (rule repr_ext)
  then show ?thesis by (rule truthy_repr)
qed simp

lemma get_default_repr:
  assumes "repr h v p" and "R d dj" and "\<And>w j. repr h w j \<Longrightarrow> R w j"
  shows "rel_sum (=) R (h_get_default h v k d) (get_default p k dj)"
  using assms(1)
proof (cases rule: repr.cases)
  case (repr_Dict a kvs kjs)
  have "rel_option (repr h) (map_of kvs k) (map_of kjs k)"
    using repr_Dict(5) by (rule map_of_all2)
  then show ?thesis
    using repr_Dict assms(2,3)
    by (cases "map_of kvs k"; cases "map_of kjs k") (auto simp: dict_get_default_def)
qed auto

lemma get_default_pv:
  assumes "pv h0 h v p" and "ext h0 h" and "pv h0 h d dj"
  shows "rel_sum (=) (pv h0 h) (h_get_default h v k d) (get_default p k dj)"
  using assms(1) unfolding pv_def [of h0 h v p]
proof (elim disjE exE conjE)
  assume r: "repr h0 v p"
  show ?thesis
    using r
  proof (cases rule: repr.cases)
    case (repr_Dict a kvs kjs)
    have "rel_option (repr h0) (map_of kvs k) (map_of kjs k)"
      using repr_Dict(5) by (rule map_of_all2)
    moreover have "h ! a = CDict kvs" using repr_Dict assms(2) by (simp add: ext_def)
    ultimately show ?thesis
      using repr_Dict assms(3)
      by (cases "map_of kvs k"; cases "map_of kjs k") (auto simp: dict_get_default_def pv_repr)
  next
    case (repr_List a vs js)
    then have "h ! a = CList vs" using assms(2) by (simp add: ext_def)
    with repr_List show ?thesis by simp
  qed auto
next
  fix a assume "v = VRef a" "h ! a = CDict []" "p = JObj []"
  then show ?thesis using assms(3) by (simp add: dict_get_default_def)
qed

lemma get_pv:
  assumes "pv h0 h v p" and "ext h0 h"
  shows "rel_sum (=) (repr h0) (h_get h v k) (get p k)"
  using assms(1) unfolding pv_def [of h0 h v p] h_get_def get_def
proof (elim disjE exE conjE)
  assume r: "repr h0 v p"
  show "rel_sum (=) (repr h0) (h_get_default h v k VNone) (get_default p k JNull)"
    using r
  proof (cases rule: repr.cases)
    case (repr_Dict a kvs kjs)
    have "rel_option (repr h0) (map_of kvs k) (map_of kjs k)"
      using repr_Dict(5) by (rule map_of_all2)
    moreover have "h ! a = CDict kvs" using repr_Dict assms(2) by (simp add: ext_def)
    ultimately show ?thesis
      using repr_Dict
      by (cases "map_of kvs k"; cases "map_of kjs k")
         (auto simp: dict_get_default_def intro: repr.intros)
  next
    case (repr_List a vs js)
    then have "h ! a = CList vs" using assms(2) by (simp add: ext_def)
    with repr_List show ?thesis by simp
  qed auto
next
  fix a assume "v = VRef a" "h ! a = CDict []" "p = JObj []"
  then show "rel_sum (=) (repr h0) (h_get_default h v k VNone) (get_default p k JNull)"
    by (simp add: dict_get_default_def repr.intros)
qed

lemma or_empty_dict_pv:
  assumes "repr h0 x jx" and "ext h0 h" and "h_or_empty_dict x h = (m, h')"
  shows "ext h h' \<and> ext h0 h' \<and> pv h0 h' m (por jx (JObj []))"
proof (cases "h_truthy h x")
  case True
  moreover have "truthy jx" using True truthy_pv [OF pv_repr [OF assms(1)] assms(2)] by simp
  ultimately show ?thesis using assms by (auto simp: h_or_empty_dict_def por_def pv_repr)
next
  case False
  moreover have "\<not> truthy jx" using False truthy_pv [OF pv_repr [OF assms(1)] assms(2)] by simp
  ultimately show ?thesis
    using assms ext_length [OF assms(2)]
    by (auto simp: h_or_empty_dict_def por_def alloc_def pv_def intro: ext_trans)
qed

lemma h_or_repr:
  assumes "repr h0 x jx" and "repr h0 y jy" and "ext h0 h"
  shows "repr h0 (h_or h x y) (por jx jy)"
  using assms truthy_pv [OF pv_repr [OF assms(1)] assms(3)]
  by (simp add: h_or_def por_def)

lemma get_Inl_default: "get jn k = Inl e \<Longrightarrow> get_default jn k d = Inl e"
  by (cases jn) (simp_all add: get_def)

lemma get_Inr_default: "get jn k = Inr x \<Longrightarrow> \<exists>y. get_default jn k d = Inr y"
  by (cases jn) (simp_all add: get_def)

lemma sort_key_of_h_sim:
  assumes "repr h0 n jn" and "ext h0 h"
  shows "case sort_key_of_h n h of
           (res, h') \<Rightarrow> ext h h' \<and> rel_sum (=) (repr h0) res (sort_key_of jn)"
proof -
  have g: "rel_sum (=) (repr h0) (h_get h n ''message'') (get jn ''message'')"
    using pv_repr [OF assms(1)] assms(2) by (rule get_pv)
  show ?thesis
  proof (cases "h_get h n ''message''")
    case (Inl e)
    with g have "get jn ''message'' = Inl e" by (auto elim: rel_sum.cases)
    then have "sort_key_of jn = Inl e"
      by (simp add: sort_key_of_def bind_def get_Inl_default)
    with Inl show ?thesis by (simp add: sort_key_of_h_def)
  next
    case (Inr x)
    let ?h1 = "h @ [CDict []]"
    let ?d = "VRef (length h)"
    have e1: "ext h ?h1" and e01: "ext h0 ?h1"
      using assms(2) by (auto intro: ext_trans)
    have pd: "pv h0 ?h1 ?d (JObj [])"
      using ext_length [OF assms(2)] by (simp add: pv_def)
    have gd: "rel_sum (=) (pv h0 ?h1) (h_get_default ?h1 n ''message'' ?d)
                (get_default jn ''message'' (JObj []))"
      using pv_repr [OF assms(1)] e01 pd by (rule get_default_pv)
    from g Inr obtain y where "get jn ''message'' = Inr y" by (auto elim: rel_sum.cases)
    then obtain jm where jm: "get_default jn ''message'' (JObj []) = Inr jm"
      using get_Inr_default by blast
    with gd obtain m where m: "h_get_default ?h1 n ''message'' ?d = Inr m" and pm: "pv h0 ?h1 m jm"
      by (auto elim: rel_sum.cases)
    have gt: "rel_sum (=) (repr h0) (h_get ?h1 m ''create_time'') (get jm ''create_time'')"
      using pm e01 by (rule get_pv)
    show ?thesis
    proof (cases "h_get ?h1 m ''create_time''")
      case (Inl e)
      with gt have "get jm ''create_time'' = Inl e" by (auto elim: rel_sum.cases)
      with jm have "sort_key_of jn = Inl e" by (simp add: sort_key_of_def bind_def)
      with Inl \<open>h_get h n ''message'' = Inr x\<close> m e1 show ?thesis
        by (simp add: sort_key_of_h_def alloc_def hbind_def)
    next
      case (Inr t)
      with gt obtain jt where jt: "get jm ''create_time'' = Inr jt" and rt: "repr h0 t jt"
        by (auto elim: rel_sum.cases)
      have "repr h0 (h_or ?h1 t (VNum 0)) (por jt (JNum 0))"
        using rt repr.repr_Num e01 by (rule h_or_repr)
      moreover have "sort_key_of jn = Inr (por jt (JNum 0))"
        using jm jt by (simp add: sort_key_of_def bind_def)
      ultimately show ?thesis
        using Inr \<open>h_get h n ''message'' = Inr x\<close> m e1
        by (simp add: sort_key_of_h_def alloc_def hbind_def)
    qed
  qed
qed

lemma keys_h_sim:
  assumes "list_all2 (repr h0) ns jns" and "ext h0 h"
  shows "case keys_h ns h of
           (res, h') \<Rightarrow> ext h h' \<and> rel_sum (=) (list_all2 (repr h0)) res (mapM sort_key_of jns)"
  using assms
proof (induction arbitrary: h rule: list_all2_induct)
  case Nil
  then show ?case by simp
next
  case (Cons n ns jn jns)
  obtain res1 h1 where s1: "sort_key_of_h n h = (res1, h1)" by (cases "sort_key_of_h n h")
  have r1: "ext h h1" "rel_sum (=) (repr h0) res1 (sort_key_of jn)"
    using sort_key_of_h_sim [OF Cons.hyps(1) Cons.prems, of] s1 by auto
  show ?case
  proof (cases res1)
    case (Inl e)
    with r1 s1 show ?thesis by (auto simp: hbind_def bind_def elim: rel_sum.cases)
  next
    case (Inr k)
    with r1 obtain jk where jk: "sort_key_of jn = Inr jk" and rk: "repr h0 k jk"
      by (auto elim: rel_sum.cases)
    have e01: "ext h0 h1" using Cons.prems r1(1) by (rule ext_trans)
    obtain res2 h2 where s2: "keys_h ns h1 = (res2, h2)" by (cases "keys_h ns h1")
    have r2: "ext h1 h2" "rel_sum (=) (list_all2 (repr h0)) res2 (mapM sort_key_of jns)"
      using Cons.IH [OF e01] s2 by auto
    have e: "ext h h2" using r1(1) r2(1) by (rule ext_trans)
    show ?thesis
      using s1 Inr s2 jk rk r2(2) e
      by (cases res2) (auto simp: hbind_def bind_def elim: rel_sum.cases)
  qed
qed

lemma num_key_repr: "repr h k jk \<Longrightarrow> num_key_v k = num_key jk"
  by (induction rule: repr.cases) auto

lemma str_key_repr: "repr h k jk \<Longrightarrow> str_key_v k = str_key jk"
  by (induction rule: repr.cases) auto

lemma insort_key_all2:
  assumes "list_all2 R xs ys" and "R x y" and "\<And>a b. R a b \<Longrightarrow> f a = g b"
  shows "list_all2 R (insort_key f x xs) (insort_key g y ys)"
  using assms(1)
proof (induction rule: list_all2_induct)
  case Nil
  then show ?case using assms(2) by simp
next
  case (Cons a as b bs)
  then show ?case using assms(2,3) by auto
qed

lemma sort_key_all2:
  assumes "list_all2 R xs ys" and "\<And>a b. R a b \<Longrightarrow> f a = g b"
  shows "list_all2 R (sort_key f xs) (sort_key g ys)"
  using assms(1)
proof (induction rule: list_all2_induct)
  case Nil
  then show ?case by simp
next
  case (Cons a as b bs)
  then show ?case using assms(2) by (simp add: insort_key_all2)
qed

lemma zip_all2:
  assumes "list_all2 K ks jks" and "list_all2 N ns jns"
  shows "list_all2 (\<lambda>(k, n) (jk, jn). K k jk \<and> N n jn) (zip ks ns) (zip jks jns)"
  using assms by (auto simp: list_all2_conv_all_nth)

lemma list_all_all2:
  assumes "list_all2 R xs ys" and "\<And>a b. R a b \<Longrightarrow> P a = Q b"
  shows "list_all P xs = list_all Q ys"
  using assms(1) by (induction rule: list_all2_induct) (auto simp: assms(2))

lemma sort_decorated_sim:
  assumes "list_all2 (repr h) ks jks" and "list_all2 N ns jns"
  shows "rel_sum (=) (list_all2 N) (sort_decorated_v (zip ks ns)) (sort_decorated (zip jks jns))"
proof -
  let ?R = "\<lambda>(k, n) (jk, jn). repr h k jk \<and> N n jn"
  have z: "list_all2 ?R (zip ks ns) (zip jks jns)"
    using assms by (rule zip_all2)
  have len: "length (zip ks ns) = length (zip jks jns)"
    using z by (rule list_all2_lengthD)
  have an: "list_all (\<lambda>(k, n). num_key_v k \<noteq> None) (zip ks ns)
          = list_all (\<lambda>(k, n). num_key k \<noteq> None) (zip jks jns)"
    using z by (rule list_all_all2) (auto simp: num_key_repr)
  have as: "list_all (\<lambda>(k, n). str_key_v k \<noteq> None) (zip ks ns)
          = list_all (\<lambda>(k, n). str_key k \<noteq> None) (zip jks jns)"
    using z by (rule list_all_all2) (auto simp: str_key_repr)
  have m: "list_all2 N (map snd xs) (map snd ys)" if "list_all2 ?R xs ys" for xs ys
    using that by (induction rule: list_all2_induct) auto
  have sn: "list_all2 ?R (sort_key (\<lambda>(k, n). the (num_key_v k)) (zip ks ns))
              (sort_key (\<lambda>(k, n). the (num_key k)) (zip jks jns))"
    using z by (rule sort_key_all2) (auto simp: num_key_repr)
  have ss: "list_all2 ?R (sort_key (\<lambda>(k, n). the (str_key_v k)) (zip ks ns))
              (sort_key (\<lambda>(k, n). the (str_key k)) (zip jks jns))"
    using z by (rule sort_key_all2) (auto simp: str_key_repr)
  show ?thesis
    unfolding sort_decorated_v_def sort_decorated_def len an as
    using m [OF z] m [OF sn] m [OF ss] by simp
qed

lemma list_sort_h_sim:
  assumes "a < length h" and "h ! a = CList ns" and "list_all2 (repr h0) ns jns"
    and "ext h0 h" and "length h0 \<le> a"
  shows "case list_sort_h a h of
           (res, h') \<Rightarrow>
             ext h0 h' \<and> length h \<le> length h' \<and> (\<forall>b < length h. b \<noteq> a \<longrightarrow> h' ! b = h ! b)
             \<and> (case res of
                  Inl e \<Rightarrow> sort_nodes jns = Inl e
                | Inr u \<Rightarrow> \<exists>ns' jns'. h' ! a = CList ns' \<and> sort_nodes jns = Inr jns'
                            \<and> list_all2 (repr h0) ns' jns')"
proof -
  obtain res1 h1 where k: "keys_h ns h = (res1, h1)" by (cases "keys_h ns h")
  have e: "ext h h1" and r: "rel_sum (=) (list_all2 (repr h0)) res1 (mapM sort_key_of jns)"
    using keys_h_sim [OF assms(3,4)] k by auto
  have e0: "ext h0 h1" using assms(4) e by (rule ext_trans)
  have len: "length h \<le> length h1" and same: "\<forall>b < length h. h1 ! b = h ! b"
    using e by (auto simp: ext_def)
  show ?thesis
  proof (cases res1)
    case (Inl err)
    with r have "mapM sort_key_of jns = Inl err" by (auto elim: rel_sum.cases)
    then have "sort_nodes jns = Inl err" by (simp add: sort_nodes_def bind_def)
    with Inl k assms(2) e0 len same show ?thesis
      by (simp add: list_sort_h_def hbind_def)
  next
    case (Inr ks)
    with r obtain jks where jks: "mapM sort_key_of jns = Inr jks" and rk: "list_all2 (repr h0) ks jks"
      by (auto elim: rel_sum.cases)
    have sd: "rel_sum (=) (list_all2 (repr h0)) (sort_decorated_v (zip ks ns))
                (sort_decorated (zip jks jns))"
      using rk assms(3) by (rule sort_decorated_sim)
    have sn: "sort_nodes jns = sort_decorated (zip jks jns)"
      using jks by (simp add: sort_nodes_def bind_def)
    show ?thesis
    proof (cases "sort_decorated_v (zip ks ns)")
      case (Inl err)
      with sd sn have "sort_nodes jns = Inl err" by (auto elim: rel_sum.cases)
      with Inl Inr k assms(2) e0 len same show ?thesis
        by (simp add: list_sort_h_def hbind_def)
    next
      case (Inr ns')
      with sd sn obtain jns' where "sort_nodes jns = Inr jns'" "list_all2 (repr h0) ns' jns'"
        by (auto elim: rel_sum.cases)
      moreover have "ext h0 (h1[a := CList ns'])" using e0 assms(5) by (rule ext_update)
      moreover have "a < length h1" using assms(1) len by simp
      ultimately show ?thesis
        using Inr \<open>res1 = Inr ks\<close> k assms(2) len same
        by (auto simp: list_sort_h_def hbind_def)
    qed
  qed
qed

lemma chunk_loop_sim:
  assumes "list_all2 (repr h0) ps jps" and "c < length h" and "h ! c = CList xs"
    and "ext h0 h" and "length h0 \<le> c"
  shows "\<exists>ys. chunk_loop ps c h = h[c := CList (xs @ ys)]
            \<and> list_all2 (repr h0) ys (collect_chunk jps)"
  using assms
proof (induction arbitrary: h xs rule: list_all2_induct)
  case Nil
  have "h[c := CList xs] = h" using Nil(2) by (metis list_update_id)
  then show ?case by simp
next
  case (Cons p ps jp jps)
  have skip: ?case
    if "chunk_loop (p # ps) c h = chunk_loop ps c h"
      and "collect_chunk (jp # jps) = collect_chunk jps"
  proof -
    from Cons.IH [OF Cons.prems(1,2,3,4)] obtain ys
      where "chunk_loop ps c h = h[c := CList (xs @ ys)]"
        and "list_all2 (repr h0) ys (collect_chunk jps)" by blast
    with that show ?thesis by auto
  qed
  have push: ?case
    if "chunk_loop (p # ps) c h = chunk_loop ps c (append_h c v h)"
      and "collect_chunk (jp # jps) = jv # collect_chunk jps" and "repr h0 v jv" for v jv
  proof -
    let ?h = "h[c := CList (xs @ [v])]"
    have a: "append_h c v h = ?h" using Cons.prems(2) by (simp add: append_h_def)
    have "c < length ?h" "?h ! c = CList (xs @ [v])" "ext h0 ?h"
      using Cons.prems(1,3,4) by (simp_all add: ext_update)
    from Cons.IH [OF this Cons.prems(4)] obtain ys
      where "chunk_loop ps c ?h = ?h[c := CList ((xs @ [v]) @ ys)]"
        and "list_all2 (repr h0) ys (collect_chunk jps)" by blast
    with that a show ?thesis by (intro exI [of _ "v # ys"]) simp
  qed
  from Cons.hyps(1) show ?case
  proof (cases rule: repr.cases)
    case repr_None
    then show ?thesis by (intro skip) simp_all
  next
    case (repr_Bool b)
    then show ?thesis by (intro skip) simp_all
  next
    case (repr_Num r)
    then show ?thesis by (intro skip) simp_all
  next
    case (repr_Str s)
    then show ?thesis by (intro push [of "VStr s" "JStr s"]) (simp_all add: repr.intros)
  next
    case (repr_List a vs js)
    then have "h ! a = CList vs" using Cons.prems(3) by (simp add: ext_def)
    with repr_List show ?thesis by (intro skip) simp_all
  next
    case (repr_Dict a kvs kjs)
    then have ha: "h ! a = CDict kvs" using Cons.prems(3) by (simp add: ext_def)
    have ro: "rel_option (repr h0) (map_of kvs ''text'') (map_of kjs ''text'')"
      using repr_Dict(5) by (rule map_of_all2)
    show ?thesis
    proof (cases "map_of kvs ''text''")
      case None
      with ro have "map_of kjs ''text'' = None" by (cases "map_of kjs ''text''") auto
      with None ha repr_Dict show ?thesis by (intro skip) simp_all
    next
      case (Some v)
      with ro obtain jv where "map_of kjs ''text'' = Some jv" "repr h0 v jv"
        by (cases "map_of kjs ''text''") auto
      with Some ha repr_Dict show ?thesis by (intro push [of v jv]) simp_all
    qed
  qed
qed

lemma as_str_repr: "repr h v j \<Longrightarrow> as_str_v v = as_str j"
  by (induction rule: repr.cases) auto

lemma join_newline_sim: "list_all2 (repr h) xs js \<Longrightarrow> join_newline_v xs = join_newline js"
proof -
  assume "list_all2 (repr h) xs js"
  then have "mapM as_str_v xs = mapM as_str js"
    by (induction rule: list_all2_induct) (auto simp: as_str_repr)
  then show ?thesis by (simp add: join_newline_v_def join_newline_def)
qed

lemma h_get_Inr_ref: "h_get h v k = Inr x \<Longrightarrow> \<exists>a. v = VRef a"
  by (cases v) (simp_all add: h_get_def)

lemma get_Inr_obj: "get j k = Inr x \<Longrightarrow> \<exists>kjs. j = JObj kjs"
  by (cases j) (simp_all add: get_def)

lemma extract_text_h_sim:
  assumes "pv h0 h content jc" and "ext h0 h"
  shows "case extract_text_h content h of (res, h') \<Rightarrow> ext h h' \<and> res = extract_text jc"
proof -
  have gp: "rel_sum (=) (repr h0) (h_get h content ''parts'') (get jc ''parts'')"
    using assms by (rule get_pv)
  show ?thesis
  proof (cases "h_get h content ''parts''")
    case (Inl e)
    with gp have "get jc ''parts'' = Inl e" by (auto elim: rel_sum.cases)
    with Inl show ?thesis by (simp add: extract_text_h_def extract_text_def hbind_def bind_def)
  next
    case (Inr parts)
    with gp obtain jparts where jp: "get jc ''parts'' = Inr jparts" and rp: "repr h0 parts jparts"
      by (auto elim: rel_sum.cases)
    from Inr obtain ac where ac: "content = VRef ac" using h_get_Inr_ref by blast
    from jp obtain kjs where kjs: "jc = JObj kjs" using get_Inr_obj by blast
    have gt: "rel_sum (=) (repr h0) (h_get h content ''text'') (get jc ''text'')"
      using assms by (rule get_pv)
    have fall: ?thesis
      if "nonempty_list_at h parts = None"
        and "\<And>X Y. (case jparts of JList (p # ps) \<Rightarrow> X p ps | _ \<Rightarrow> Y) = (Y :: error + string)"
    proof (cases "h_get h content ''text''")
      case (Inl e)
      with gt have "get jc ''text'' = Inl e" by (auto elim: rel_sum.cases)
      with Inl \<open>h_get h content ''parts'' = Inr parts\<close> jp that show ?thesis
        by (simp add: extract_text_h_def extract_text_def hbind_def bind_def)
    next
      case (Inr t)
      with gt obtain jt where jt: "get jc ''text'' = Inr jt" and rt: "repr h0 t jt"
        by (auto elim: rel_sum.cases)
      from rt show ?thesis
        using Inr \<open>h_get h content ''parts'' = Inr parts\<close> jp jt that ac kjs
        by (cases rule: repr.cases)
           (simp_all add: extract_text_h_def extract_text_def hbind_def bind_def)
    qed
    from rp show ?thesis
    proof (cases rule: repr.cases)
      case repr_None
      then show ?thesis by (intro fall) (simp_all add: nonempty_list_at_def)
    next
      case (repr_Bool b)
      then show ?thesis by (intro fall) (simp_all add: nonempty_list_at_def)
    next
      case (repr_Num r)
      then show ?thesis by (intro fall) (simp_all add: nonempty_list_at_def)
    next
      case (repr_Str s)
      then show ?thesis by (intro fall) (simp_all add: nonempty_list_at_def)
    next
      case (repr_Dict a kvs kjs')
      then have "h ! a = CDict kvs" using assms(2) by (simp add: ext_def)
      with repr_Dict show ?thesis by (intro fall) (simp_all add: nonempty_list_at_def)
    next
      case (repr_List a vs js)
      then have ha: "h ! a = CList vs" using assms(2) by (simp add: ext_def)
      show ?thesis
      proof (cases vs)
        case Nil
        with repr_List(5) have "js = []" by simp
        with Nil ha repr_List show ?thesis by (intro fall) (simp_all add: nonempty_list_at_def)
      next
        case (Cons p ps)
        with repr_List(5) obtain q qs where js: "js = q # qs" by (cases js) auto
        let ?h1 = "h @ [CList []]"
        let ?c = "length h"
        have "\<exists>ys. chunk_loop vs ?c ?h1 = ?h1[?c := CList ([] @ ys)]
                  \<and> list_all2 (repr h0) ys (collect_chunk js)"
          using repr_List(5)
        proof (rule chunk_loop_sim)
          show "?c < length ?h1" by simp
          show "?h1 ! ?c = CList []" by simp
          show "ext h0 ?h1" using assms(2) by (auto intro: ext_trans)
          show "length h0 \<le> ?c" using assms(2) by (rule ext_length)
        qed
        then obtain ys where cl: "chunk_loop vs ?c ?h1 = ?h1[?c := CList ys]"
          and rys: "list_all2 (repr h0) ys (collect_chunk js)" by auto
        have jn: "join_newline_v ys = join_newline (collect_chunk js)"
          using rys by (rule join_newline_sim)
        have e: "ext h (?h1[?c := CList ys])" by (simp add: ext_def nth_append)
        have nl: "nonempty_list_at h parts = Some vs"
          using repr_List ha Cons by (simp add: nonempty_list_at_def)
        show ?thesis
          using Inr jp nl cl jn e repr_List(2) js Cons
          by (cases "join_newline (collect_chunk js)")
             (simp_all add: extract_text_h_def extract_text_def hbind_def bind_def alloc_def Let_def)
      qed
    qed
  qed
qed

lemma msg_at_keep:
  assumes "msg_at h0 h am d m" and "length h \<le> length h'"
    and "\<forall>b < length h. b \<noteq> am \<longrightarrow> h' ! b = h ! b"
  shows "msg_at h0 h' am d m"
  using assms unfolding msg_at_def by force

lemma node_message_h_sim:
  assumes "repr h0 n jn" and "ext h0 h"
  shows "case node_message_h n h of
           (res, h') \<Rightarrow>
             ext h h'
             \<and> (case res of
                  Inl e \<Rightarrow> node_message jn = Inl e
                | Inr d \<Rightarrow>
                    \<exists>a r m. d = VRef a \<and> length h \<le> a \<and> a < length h'
                      \<and> h' ! a = CDict [(''role'', r), (''text'', VStr (msg_text m)),
                                        (''html'', VNone)]
                      \<and> node_message jn = Inr m \<and> repr h0 r (role m) \<and> html m = None)"
proof -
  have g1: "rel_sum (=) (repr h0) (h_get h n ''message'') (get jn ''message'')"
    using pv_repr [OF assms(1)] assms(2) by (rule get_pv)
  show ?thesis
  proof (cases "h_get h n ''message''")
    case (Inl e)
    with g1 have "get jn ''message'' = Inl e" by (auto elim: rel_sum.cases)
    with Inl show ?thesis by (simp add: node_message_h_def node_message_def hbind_def bind_def)
  next
    case m0: (Inr m0)
    with g1 obtain jm0 where jm0: "get jn ''message'' = Inr jm0" and rm0: "repr h0 m0 jm0"
      by (auto elim: rel_sum.cases)
    obtain m h1 where o1: "h_or_empty_dict m0 h = (m, h1)" by (cases "h_or_empty_dict m0 h")
    let ?jm = "por jm0 (JObj [])"
    have e1: "ext h h1" "ext h0 h1" and pm: "pv h0 h1 m ?jm"
      using or_empty_dict_pv [OF rm0 assms(2) o1] by auto
    have g2: "rel_sum (=) (repr h0) (h_get h1 m ''author'') (get ?jm ''author'')"
      using pm e1(2) by (rule get_pv)
    show ?thesis
    proof (cases "h_get h1 m ''author''")
      case (Inl e)
      with g2 have "get ?jm ''author'' = Inl e" by (auto elim: rel_sum.cases)
      with Inl m0 jm0 o1 e1 show ?thesis
        by (simp add: node_message_h_def node_message_def hbind_def bind_def)
    next
      case a0: (Inr a0)
      with g2 obtain ja0 where ja0: "get ?jm ''author'' = Inr ja0" and ra0: "repr h0 a0 ja0"
        by (auto elim: rel_sum.cases)
      obtain a h2 where o2: "h_or_empty_dict a0 h1 = (a, h2)" by (cases "h_or_empty_dict a0 h1")
      let ?ja = "por ja0 (JObj [])"
      have e2: "ext h1 h2" "ext h0 h2" and pa: "pv h0 h2 a ?ja"
        using or_empty_dict_pv [OF ra0 e1(2) o2] by auto
      have g3: "rel_sum (=) (repr h0) (h_get h2 a ''role'') (get ?ja ''role'')"
        using pa e2(2) by (rule get_pv)
      show ?thesis
      proof (cases "h_get h2 a ''role''")
        case (Inl e)
        with g3 have "get ?ja ''role'' = Inl e" by (auto elim: rel_sum.cases)
        with Inl m0 jm0 o1 a0 ja0 o2 e1 e2 show ?thesis
          by (auto simp: node_message_h_def node_message_def hbind_def bind_def intro: ext_trans)
      next
        case r0: (Inr r0)
        with g3 obtain jr0 where jr0: "get ?ja ''role'' = Inr jr0" and rr0: "repr h0 r0 jr0"
          by (auto elim: rel_sum.cases)
        let ?author = "h_or h2 r0 (VStr ''assistant'')"
        let ?jauthor = "por jr0 (JStr ''assistant'')"
        have rau: "repr h0 ?author ?jauthor"
          using rr0 repr.repr_Str e2(2) by (rule h_or_repr)
        have pm2: "pv h0 h2 m ?jm" using pm e2(1) by (rule pv_ext)
        have g4: "rel_sum (=) (repr h0) (h_get h2 m ''content'') (get ?jm ''content'')"
          using pm2 e2(2) by (rule get_pv)
        show ?thesis
        proof (cases "h_get h2 m ''content''")
          case (Inl e)
          with g4 have "get ?jm ''content'' = Inl e" by (auto elim: rel_sum.cases)
          with Inl m0 jm0 o1 a0 ja0 o2 r0 jr0 e1 e2 show ?thesis
            by (auto simp: node_message_h_def node_message_def hbind_def bind_def Let_def
                intro: ext_trans)
        next
          case c0: (Inr c0)
          with g4 obtain jc0 where jc0: "get ?jm ''content'' = Inr jc0" and rc0: "repr h0 c0 jc0"
            by (auto elim: rel_sum.cases)
          obtain content h3 where o3: "h_or_empty_dict c0 h2 = (content, h3)"
            by (cases "h_or_empty_dict c0 h2")
          let ?jc = "por jc0 (JObj [])"
          have e3: "ext h2 h3" "ext h0 h3" and pc: "pv h0 h3 content ?jc"
            using or_empty_dict_pv [OF rc0 e2(2) o3] by auto
          obtain res h4 where x: "extract_text_h content h3 = (res, h4)"
            by (cases "extract_text_h content h3")
          have e4: "ext h3 h4" and rx: "res = extract_text ?jc"
            using extract_text_h_sim [OF pc e3(2)] x by auto
          have e04: "ext h h4"
            using e1(1) e2(1) e3(1) e4 by (blast intro: ext_trans)
          have unf: "node_message_h n h =
                 (case res of Inl e \<Rightarrow> (Inl e, h4)
                  | Inr t \<Rightarrow> (Inr (VRef (length h4)),
                       h4 @ [CDict [(''role'', ?author), (''text'', VStr t), (''html'', VNone)]]))"
            using m0 o1 a0 o2 r0 c0 o3 x
            by (simp add: node_message_h_def hbind_def Let_def alloc_def split: sum.splits)
          have punf: "node_message jn =
                 (case extract_text ?jc of Inl e \<Rightarrow> Inl e
                  | Inr t \<Rightarrow> Inr \<lparr>role = ?jauthor, msg_text = t, html = None\<rparr>)"
            using jm0 ja0 jr0 jc0
            by (simp add: node_message_def bind_def Let_def split: sum.splits)
          have xr: "extract_text ?jc = res" using rx by simp
          show ?thesis
          proof (cases res)
            case (Inl e)
            with unf punf xr e04 show ?thesis by simp
          next
            case (Inr t)
            have "ext h (h4 @ [CDict [(''role'', ?author), (''text'', VStr t), (''html'', VNone)]])"
              using e04 ext_append by (rule ext_trans)
            moreover have "length h \<le> length h4" using e04 by (rule ext_length)
            ultimately show ?thesis
              using Inr unf punf xr rau by simp
          qed
        qed
      qed
    qed
  qed
qed

lemma nodes_loop_step_Inl:
  "node_message_h n h = (Inl e, h1) \<Longrightarrow> nodes_loop (n # ns) am h = (Inl e, h1)"
  by (simp add: hbind_def)

lemma nodes_loop_step_Inr:
  "node_message_h n h = (Inr d, h1)
   \<Longrightarrow> nodes_loop (n # ns) am h = nodes_loop ns am (append_h am d h1)"
  by (simp add: hbind_def)

lemma mapM_step_Inl: "f x = Inl e \<Longrightarrow> mapM f (x # xs) = Inl e"
  by (simp add: bind_def)

lemma mapM_step_Inr:
  "f x = Inr y \<Longrightarrow> mapM f (x # xs) = (case mapM f xs of Inl e \<Rightarrow> Inl e | Inr ys \<Rightarrow> Inr (y # ys))"
  by (simp add: bind_def)

lemma loop_post_Nil:
  assumes "ext h0 h" and "h ! am = CList ds" and "list_all2 (msg_at h0 h am) ds ms0"
  shows "loop_post h0 h am ms0 [] (Inr ()) h"
  using assms by (simp add: loop_post_def)

lemma loop_post_fail:
  assumes "ext h0 h1" and "length h \<le> length h1" and "\<forall>b < length h. h1 ! b = h ! b"
    and "node_message jn = Inl e"
  shows "loop_post h0 h am ms0 (jn # jns) (Inl e) h1"
  using assms by (simp add: loop_post_def mapM_step_Inl del: mapM.simps)

lemma loop_post_step:
  assumes post: "loop_post h0 h2 am (ms0 @ [m]) jns res h3"
    and len: "length h \<le> length h2"
    and same: "\<forall>b < length h. b \<noteq> am \<longrightarrow> h2 ! b = h ! b"
    and nm: "node_message jn = Inr m"
  shows "loop_post h0 h am ms0 (jn # jns) res h3"
proof -
  have e: "ext h0 h3" and l: "length h2 \<le> length h3"
    and s: "\<forall>b < length h2. b \<noteq> am \<longrightarrow> h3 ! b = h2 ! b"
    using post by (simp_all add: loop_post_def)
  have l': "length h \<le> length h3" using len l by simp
  have s': "\<forall>b < length h. b \<noteq> am \<longrightarrow> h3 ! b = h ! b"
  proof (intro allI impI)
    fix b assume b: "b < length h" "b \<noteq> am"
    then have "h3 ! b = h2 ! b" using s len by simp
    also have "\<dots> = h ! b" using same b by simp
    finally show "h3 ! b = h ! b" .
  qed
  have r: "case res of
             Inl e \<Rightarrow> mapM node_message (jn # jns) = Inl e
           | Inr u \<Rightarrow>
               \<exists>ds' ms. mapM node_message (jn # jns) = Inr ms \<and> h3 ! am = CList ds'
                 \<and> list_all2 (msg_at h0 h3 am) ds' (ms0 @ ms)"
  proof (cases res)
    case (Inl e)
    with post have "mapM node_message jns = Inl e" by (simp add: loop_post_def)
    with Inl nm show ?thesis by (simp add: mapM_step_Inr del: mapM.simps)
  next
    case (Inr u)
    with post obtain ds' ms where ms: "mapM node_message jns = Inr ms"
      and d: "h3 ! am = CList ds'" and a: "list_all2 (msg_at h0 h3 am) ds' ((ms0 @ [m]) @ ms)"
      unfolding loop_post_def by auto
    have "mapM node_message (jn # jns) = Inr (m # ms)"
      using nm ms by (simp add: mapM_step_Inr del: mapM.simps)
    moreover have "list_all2 (msg_at h0 h3 am) ds' (ms0 @ (m # ms))" using a by simp
    ultimately show ?thesis using Inr d by auto
  qed
  show ?thesis unfolding loop_post_def using e l' s' r by blast
qed

lemma nodes_loop_sim:
  assumes "list_all2 (repr h0) ns jns" and "ext h0 h" and "length h0 \<le> am" and "am < length h"
    and "h ! am = CList ds" and "list_all2 (msg_at h0 h am) ds ms0"
  shows "loop_post h0 h am ms0 jns (fst (nodes_loop ns am h)) (snd (nodes_loop ns am h))"
  using assms
proof (induction arbitrary: h ds ms0 rule: list_all2_induct)
  case Nil
  then show ?case by (simp add: loop_post_Nil)
next
  case (Cons n ns jn jns)
  note ext0 = Cons.prems(1) and am0 = Cons.prems(2) and am1 = Cons.prems(3)
    and ham = Cons.prems(4) and old0 = Cons.prems(5)
  obtain res1 h1 where s1: "node_message_h n h = (res1, h1)" by (cases "node_message_h n h")
  have sim: "ext h h1 \<and>
        (case res1 of
           Inl e \<Rightarrow> node_message jn = Inl e
         | Inr d \<Rightarrow>
             \<exists>a r m. d = VRef a \<and> length h \<le> a \<and> a < length h1
               \<and> h1 ! a = CDict [(''role'', r), (''text'', VStr (msg_text m)), (''html'', VNone)]
               \<and> node_message jn = Inr m \<and> repr h0 r (role m) \<and> html m = None)"
    using node_message_h_sim [OF Cons.hyps(1) ext0] unfolding s1 by simp
  then have e1: "ext h h1" by (rule conjunct1)
  have e01: "ext h0 h1" using ext0 e1 by (rule ext_trans)
  have len1: "length h \<le> length h1" using e1 by (rule ext_length)
  have same1: "\<forall>b < length h. h1 ! b = h ! b" using e1 by (simp add: ext_def)
  show ?case
  proof (cases res1)
    case (Inl e)
    with sim have nm: "node_message jn = Inl e" by simp
    have "nodes_loop (n # ns) am h = (Inl e, h1)"
      using s1 Inl by (simp add: nodes_loop_step_Inl del: nodes_loop.simps)
    moreover have "loop_post h0 h am ms0 (jn # jns) (Inl e) h1"
      using e01 len1 same1 nm by (rule loop_post_fail)
    ultimately show ?thesis by simp
  next
    case (Inr d)
    with sim obtain a r m where d: "d = VRef a" and a1: "length h \<le> a" and a2: "a < length h1"
      and ha: "h1 ! a = CDict [(''role'', r), (''text'', VStr (msg_text m)), (''html'', VNone)]"
      and nm: "node_message jn = Inr m" and rr: "repr h0 r (role m)" and hm: "html m = None"
      by auto
    have ham1: "h1 ! am = CList ds" using same1 am1 ham by simp
    let ?h2 = "h1[am := CList (ds @ [d])]"
    have ap: "append_h am d h1 = ?h2" using ham1 by (simp add: append_h_def)
    have ne: "a \<noteq> am" using a1 am1 by simp
    have p1: "ext h0 ?h2" using e01 am0 by (rule ext_update)
    have p2: "am < length ?h2" using am1 len1 by simp
    have p3: "?h2 ! am = CList (ds @ [d])" using am1 len1 by simp
    have len2: "length h \<le> length ?h2" using len1 by simp
    have same2: "\<forall>b < length h. b \<noteq> am \<longrightarrow> ?h2 ! b = h ! b" using same1 by simp
    have old: "list_all2 (msg_at h0 ?h2 am) ds ms0"
      using old0
    proof (rule list_all2_mono)
      fix x y assume "msg_at h0 h am x y"
      then show "msg_at h0 ?h2 am x y" using len2 same2 by (rule msg_at_keep)
    qed
    have la: "length h0 \<le> a" using ext_length [OF ext0] a1 by simp
    have ha2: "?h2 ! a = CDict [(''role'', r), (''text'', VStr (msg_text m)), (''html'', VNone)]"
      using ha ne by simp
    have a22: "a < length ?h2" using a2 by simp
    have new: "msg_at h0 ?h2 am d m"
      unfolding msg_at_def using d la a22 ne ha2 rr hm by blast
    have p4: "list_all2 (msg_at h0 ?h2 am) (ds @ [d]) (ms0 @ [m])"
      using old new by (simp add: list_all2_appendI)
    have ih: "loop_post h0 ?h2 am (ms0 @ [m]) jns
                (fst (nodes_loop ns am ?h2)) (snd (nodes_loop ns am ?h2))"
      using p1 am0 p2 p3 p4 by (rule Cons.IH)
    have step: "nodes_loop (n # ns) am h = nodes_loop ns am ?h2"
      using s1 Inr ap by (simp add: nodes_loop_step_Inr del: nodes_loop.simps)
    have "loop_post h0 h am ms0 (jn # jns)
            (fst (nodes_loop ns am ?h2)) (snd (nodes_loop ns am ?h2))"
      using ih len2 same2 nm by (rule loop_post_step)
    then show ?thesis unfolding step .
  qed
qed

lemma convert_pure_unfold:
  "convert_api_conversation (JObj p) =
     (let cid = por (dict_get p ''id'') (dict_get p ''conversation_id'');
          ttl = por (dict_get p ''title'') (por (dict_get p ''current_node'') (JStr ''Untitled''));
          mapping = por (dict_get p ''mapping'') (JObj [])
      in if truthy mapping
         then (case pure_messages mapping of
                 Inl e \<Rightarrow> Inl e
               | Inr msgs \<Rightarrow> Inr \<lparr>conv_id = cid, title = ttl, messages = msgs, url = None\<rparr>)
         else Inr \<lparr>conv_id = cid, title = ttl, messages = [], url = None\<rparr>)"
  by (simp add: convert_api_conversation_def pure_messages_def get_def dict_get_def bind_def Let_def
           split: sum.splits)

lemma msg_at_repr:
  assumes "msg_at h0 h am d m" and "ext h0 h"
  shows "repr h d (msg_json m)"
proof -
  from assms(1) obtain a r where d: "d = VRef a" and a: "a < length h"
    and ha: "h ! a = CDict [(''role'', r), (''text'', VStr (msg_text m)), (''html'', VNone)]"
    and rr: "repr h0 r (role m)" and hm: "html m = None"
    unfolding msg_at_def by blast
  have "repr h r (role m)" using rr assms(2) by (rule repr_ext)
  then have "list_all2 (\<lambda>kv kj. fst kv = fst kj \<and> repr h (snd kv) (snd kj))
               [(''role'', r), (''text'', VStr (msg_text m)), (''html'', VNone)]
               [(''role'', role m), (''text'', JStr (msg_text m)), (''html'', JNull)]"
    by (simp add: repr.intros)
  with a ha have "repr h (VRef a)
       (JObj [(''role'', role m), (''text'', JStr (msg_text m)), (''html'', JNull)])"
    by (rule repr.repr_Dict)
  then show ?thesis using d hm by (simp add: msg_json_def)
qed

lemma mapping_messages_h_sim:
  assumes "repr h0 mapping jm" and "ext h0 h" and "length h0 \<le> am" and "am < length h"
    and "h ! am = CList []"
  shows "case mapping_messages_h mapping am h of
           (res, h') \<Rightarrow>
             ext h0 h' \<and> length h \<le> length h'
             \<and> (case res of
                  Inl e \<Rightarrow> pure_messages jm = Inl e
                | Inr u \<Rightarrow>
                    \<exists>ds ms. pure_messages jm = Inr ms \<and> h' ! am = CList ds
                      \<and> list_all2 (msg_at h0 h' am) ds ms)"
  using assms(1)
proof (cases rule: repr.cases)
  case (repr_Dict a kvs kjs)
  have ha: "h ! a = CDict kvs" using repr_Dict assms(2) by (simp add: ext_def)
  let ?ns = "map snd kvs" and ?jns = "map snd kjs"
  let ?an = "length h"
  let ?h1 = "h @ [CList ?ns]"
  have rn: "list_all2 (repr h0) ?ns ?jns"
    using repr_Dict(5) by (induction rule: list_all2_induct) auto
  have e1: "ext h0 ?h1" using assms(2) ext_append by (rule ext_trans)
  have l0: "length h0 \<le> ?an" using assms(2) by (rule ext_length)
  obtain res2 h2 where s: "list_sort_h ?an ?h1 = (res2, h2)" by (cases "list_sort_h ?an ?h1")
  have sim: "ext h0 h2 \<and> length ?h1 \<le> length h2
        \<and> (\<forall>b < length ?h1. b \<noteq> ?an \<longrightarrow> h2 ! b = ?h1 ! b)
        \<and> (case res2 of
             Inl e \<Rightarrow> sort_nodes ?jns = Inl e
           | Inr u \<Rightarrow> \<exists>ns' jns'. h2 ! ?an = CList ns' \<and> sort_nodes ?jns = Inr jns'
                       \<and> list_all2 (repr h0) ns' jns')"
    using list_sort_h_sim [of ?an ?h1 ?ns h0 ?jns] rn e1 l0 unfolding s by simp
  then have e2: "ext h0 h2" and l2: "length ?h1 \<le> length h2"
    and same2: "\<forall>b < length ?h1. b \<noteq> ?an \<longrightarrow> h2 ! b = ?h1 ! b" by blast+
  have lh2: "length h \<le> length h2" using l2 by simp
  have unf: "mapping_messages_h mapping am h =
       (case res2 of
          Inl e \<Rightarrow> (Inl e, h2)
        | Inr u \<Rightarrow> (case h2 ! ?an of CList ns \<Rightarrow> nodes_loop ns am h2
                    | CDict x \<Rightarrow> (Inl TypeError, h2)))"
    using repr_Dict(1) ha s
    by (simp add: mapping_messages_h_def alloc_def hbind_def Let_def split: sum.splits)
  have pm: "pure_messages jm = bind (sort_nodes ?jns) (\<lambda>nodes. mapM node_message nodes)"
    using repr_Dict(2) by (simp add: pure_messages_def bind_def)
  show ?thesis
  proof (cases res2)
    case (Inl e)
    with sim have "sort_nodes ?jns = Inl e" by simp
    with pm have "pure_messages jm = Inl e" by (simp add: bind_def)
    with Inl unf e2 lh2 show ?thesis by simp
  next
    case (Inr u)
    with sim obtain ns' jns' where hn: "h2 ! ?an = CList ns'"
      and sn: "sort_nodes ?jns = Inr jns'" and rn': "list_all2 (repr h0) ns' jns'" by auto
    have pm': "pure_messages jm = mapM node_message jns'" using pm sn by (simp add: bind_def)
    have am2: "am < length h2" using assms(4) lh2 by simp
    have "h2 ! am = ?h1 ! am" using same2 assms(4) by simp
    then have ham2: "h2 ! am = CList []" using assms(4,5) by (simp add: nth_append)
    have "list_all2 (msg_at h0 h2 am) [] []" by simp
    from nodes_loop_sim [OF rn' e2 assms(3) am2 ham2 this]
    have lp0: "loop_post h0 h2 am [] jns' (fst (nodes_loop ns' am h2)) (snd (nodes_loop ns' am h2))" .
    obtain res3 h3 where s3: "nodes_loop ns' am h2 = (res3, h3)" by (cases "nodes_loop ns' am h2")
    have lp: "loop_post h0 h2 am [] jns' res3 h3" using lp0 by (simp add: s3)
    from lp have e3: "ext h0 h3" and l3: "length h2 \<le> length h3"
      and r3: "case res3 of
                 Inl e \<Rightarrow> mapM node_message jns' = Inl e
               | Inr u \<Rightarrow> \<exists>ds' ms. mapM node_message jns' = Inr ms \<and> h3 ! am = CList ds'
                           \<and> list_all2 (msg_at h0 h3 am) ds' ([] @ ms)"
      unfolding loop_post_def by blast+
    have lh3: "length h \<le> length h3" using lh2 l3 by simp
    have unf': "mapping_messages_h mapping am h = (res3, h3)"
      using unf Inr hn s3 by simp
    show ?thesis
      unfolding unf' using e3 lh3 r3 pm' by (cases res3) auto
  qed
next
  case (repr_List a vs js)
  then have "h ! a = CList vs" using assms(2) by (simp add: ext_def)
  with repr_List assms(2) show ?thesis
    by (simp add: mapping_messages_h_def pure_messages_def bind_def)
qed (use assms(2) in \<open>simp_all add: mapping_messages_h_def pure_messages_def bind_def\<close>)

lemma dict_lookup_repr:
  assumes "list_all2 (\<lambda>kv kj. fst kv = fst kj \<and> repr h (snd kv) (snd kj)) kvs kjs"
  shows "repr h (case map_of kvs k of None \<Rightarrow> VNone | Some x \<Rightarrow> x) (dict_get kjs k)"
proof -
  have "rel_option (repr h) (map_of kvs k) (map_of kjs k)" using assms by (rule map_of_all2)
  then show ?thesis
    by (cases "map_of kvs k"; cases "map_of kjs k")
       (auto simp: dict_get_def dict_get_default_def intro: repr.intros)
qed

lemma h_get_dict:
  "h ! a = CDict kvs \<Longrightarrow> h_get h (VRef a) k = Inr (case map_of kvs k of None \<Rightarrow> VNone | Some x \<Rightarrow> x)"
  by (simp add: h_get_def)

lemma result_repr:
  assumes "ext h0 h" and "repr h0 cid jc" and "repr h0 ttl jt" and "am < length h"
    and "h ! am = CList ds" and "list_all2 (\<lambda>d m. repr h d (msg_json m)) ds ms"
  shows "\<exists>r h'. result_dict_h cid ttl (VRef am) h = (Inr r, h') \<and> ext h h'
           \<and> repr h' r (conv_json \<lparr>conv_id = jc, title = jt, messages = ms, url = None\<rparr>)"
proof -
  let ?d = "CDict [(''id'', cid), (''title'', ttl), (''messages'', VRef am)]"
  let ?h' = "h @ [?d]"
  have e: "ext h ?h'" by simp
  have e0: "ext h0 ?h'" using assms(1) e by (rule ext_trans)
  have rc: "repr ?h' cid jc" using assms(2) e0 by (rule repr_ext)
  have rt: "repr ?h' ttl jt" using assms(3) e0 by (rule repr_ext)
  have "list_all2 (repr ?h') ds (map msg_json ms)"
    unfolding list_all2_map2 using assms(6)
  proof (rule list_all2_mono)
    fix d m assume "repr h d (msg_json m)"
    then show "repr ?h' d (msg_json m)" using e by (rule repr_ext)
  qed
  moreover have "am < length ?h'" using assms(4) by simp
  moreover have "?h' ! am = CList ds" using assms(4,5) by (simp add: nth_append)
  ultimately have rm: "repr ?h' (VRef am) (JList (map msg_json ms))"
    by (intro repr.repr_List)
  have "list_all2 (\<lambda>kv kj. fst kv = fst kj \<and> repr ?h' (snd kv) (snd kj))
          [(''id'', cid), (''title'', ttl), (''messages'', VRef am)]
          [(''id'', jc), (''title'', jt), (''messages'', JList (map msg_json ms))]"
    using rc rt rm by simp
  moreover have "length h < length ?h'" by simp
  moreover have "?h' ! length h = ?d" by simp
  ultimately have "repr ?h' (VRef (length h))
       (JObj [(''id'', jc), (''title'', jt), (''messages'', JList (map msg_json ms))])"
    by (intro repr.repr_Dict)
  then have "repr ?h' (VRef (length h))
       (conv_json \<lparr>conv_id = jc, title = jt, messages = ms, url = None\<rparr>)"
    by (simp add: conv_json_def)
  moreover have "result_dict_h cid ttl (VRef am) h = (Inr (VRef (length h)), ?h')"
    by (simp add: result_dict_h_def alloc_def)
  ultimately show ?thesis using e by blast
qed

text \<open>
  The heap-level normalizer agrees with the value-level one: it raises the same exception
  or returns a record that stands for the same conversation, and it leaves every object of
  the heap it was called in unchanged.
\<close>

lemma convert_h_sim:
  assumes "repr h0 v p"
  shows "case convert_h v h0 of
           (res, h') \<Rightarrow>
             ext h0 h'
             \<and> (case res of
                  Inl e \<Rightarrow> convert_api_conversation p = Inl e
                | Inr r \<Rightarrow> \<exists>c. convert_api_conversation p = Inr c \<and> repr h' r (conv_json c))"
  using assms
proof (cases rule: repr.cases)
  case (repr_Dict a kvs kjs)
  let ?X = "\<lambda>k. case map_of kvs k of None \<Rightarrow> VNone | Some x \<Rightarrow> x"
  let ?J = "dict_get kjs"
  have rX: "repr h0 (?X k) (?J k)" for k using repr_Dict(5) by (rule dict_lookup_repr)
  let ?cid = "h_or h0 (?X ''id'') (?X ''conversation_id'')"
  let ?jcid = "por (?J ''id'') (?J ''conversation_id'')"
  let ?ttl = "h_or h0 (?X ''title'') (h_or h0 (?X ''current_node'') (VStr ''Untitled''))"
  let ?jttl = "por (?J ''title'') (por (?J ''current_node'') (JStr ''Untitled''))"
  have rcid: "repr h0 ?cid ?jcid" using rX rX ext_refl by (rule h_or_repr)
  have "repr h0 (h_or h0 (?X ''current_node'') (VStr ''Untitled''))
          (por (?J ''current_node'') (JStr ''Untitled''))"
    using rX repr.repr_Str ext_refl by (rule h_or_repr)
  with rX have rttl: "repr h0 ?ttl ?jttl" using ext_refl by (rule h_or_repr)
  let ?am = "length h0"
  let ?h1 = "h0 @ [CList []]"
  have e1: "ext h0 ?h1" by simp
  have ha: "h0 ! a = CDict kvs" by (rule repr_Dict(4))
  have ha1: "?h1 ! a = CDict kvs" using repr_Dict(3,4) by (simp add: nth_append)
  let ?m0 = "?X ''mapping''" and ?jm0 = "?J ''mapping''"
  obtain mapping h2 where o: "h_or_empty_dict ?m0 ?h1 = (mapping, h2)"
    by (cases "h_or_empty_dict ?m0 ?h1")
  let ?jmap = "por ?jm0 (JObj [])"
  have e2: "ext ?h1 h2" "ext h0 h2" and pm: "pv h0 h2 mapping ?jmap"
    using or_empty_dict_pv [OF rX e1 o] by auto
  have tr: "h_truthy h2 mapping = truthy ?jmap" using pm e2(2) by (rule truthy_pv)
  have unf: "convert_h v h0 =
       (if h_truthy h2 mapping
        then hbind (mapping_messages_h mapping ?am h2)
               (\<lambda>u h. result_dict_h ?cid ?ttl (VRef ?am) h)
        else result_dict_h ?cid ?ttl (VRef (length h2)) (h2 @ [CList []]))"
    using repr_Dict(1) o
    by (simp add: convert_h_def hbind_def Let_def alloc_def h_get_dict [OF ha] h_get_dict [OF ha1]
          h_or_def)
  have punf: "convert_api_conversation p =
       (if truthy ?jmap
        then (case pure_messages ?jmap of
                Inl e \<Rightarrow> Inl e
              | Inr msgs \<Rightarrow> Inr \<lparr>conv_id = ?jcid, title = ?jttl, messages = msgs, url = None\<rparr>)
        else Inr \<lparr>conv_id = ?jcid, title = ?jttl, messages = [], url = None\<rparr>)"
    using repr_Dict(2) by (simp add: convert_pure_unfold Let_def)
  show ?thesis
  proof (cases "truthy ?jmap")
    case False
    let ?h3 = "h2 @ [CList []]"
    have e3: "ext h0 ?h3" using e2(2) ext_append by (rule ext_trans)
    have "\<exists>r h'. result_dict_h ?cid ?ttl (VRef (length h2)) ?h3 = (Inr r, h') \<and> ext ?h3 h'
           \<and> repr h' r (conv_json \<lparr>conv_id = ?jcid, title = ?jttl, messages = [], url = None\<rparr>)"
      using e3 rcid rttl by (rule result_repr) simp_all
    then obtain r h' where "result_dict_h ?cid ?ttl (VRef (length h2)) ?h3 = (Inr r, h')"
      and "ext ?h3 h'"
      and "repr h' r (conv_json \<lparr>conv_id = ?jcid, title = ?jttl, messages = [], url = None\<rparr>)"
      by blast
    moreover from this e3 have "ext h0 h'" by (blast intro: ext_trans)
    ultimately show ?thesis using False tr unf punf by simp
  next
    case True
    then have tj: "truthy ?jm0" by (simp add: por_def split: if_splits)
    then have jm: "?jmap = ?jm0" by (simp add: por_def)
    have "h_truthy ?h1 ?m0" using truthy_pv [OF pv_repr [OF rX] e1] tj by simp
    with o have mh: "mapping = ?m0" "h2 = ?h1" by (simp_all add: h_or_empty_dict_def)
    obtain res3 h3 where s3: "mapping_messages_h ?m0 ?am ?h1 = (res3, h3)"
      by (cases "mapping_messages_h ?m0 ?am ?h1")
    have sim: "ext h0 h3 \<and> length ?h1 \<le> length h3
          \<and> (case res3 of
               Inl e \<Rightarrow> pure_messages ?jm0 = Inl e
             | Inr u \<Rightarrow> \<exists>ds ms. pure_messages ?jm0 = Inr ms \<and> h3 ! ?am = CList ds
                         \<and> list_all2 (msg_at h0 h3 ?am) ds ms)"
      using mapping_messages_h_sim [of h0 ?m0 ?jm0 ?h1 ?am] rX e1 unfolding s3 by simp
    then have e3: "ext h0 h3" and l3: "length ?h1 \<le> length h3" by blast+
    show ?thesis
    proof (cases res3)
      case (Inl e)
      with sim have "pure_messages ?jm0 = Inl e" by simp
      with Inl True tr unf punf mh s3 jm e3 show ?thesis by (simp add: hbind_def)
    next
      case (Inr u)
      with sim obtain ds ms where pmsg: "pure_messages ?jm0 = Inr ms"
        and hd: "h3 ! ?am = CList ds" and la: "list_all2 (msg_at h0 h3 ?am) ds ms" by auto
      have lr: "list_all2 (\<lambda>d m. repr h3 d (msg_json m)) ds ms"
        using la
      proof (rule list_all2_mono)
        fix d m assume "msg_at h0 h3 ?am d m"
        then show "repr h3 d (msg_json m)" using e3 by (rule msg_at_repr)
      qed
      have am3: "?am < length h3" using l3 by simp
      from result_repr [OF e3 rcid rttl am3 hd lr]
      obtain r h' where rd: "result_dict_h ?cid ?ttl (VRef ?am) h3 = (Inr r, h')"
        and e4: "ext h3 h'"
        and rr: "repr h' r (conv_json \<lparr>conv_id = ?jcid, title = ?jttl, messages = ms, url = None\<rparr>)"
        by blast
      have "ext h0 h'" using e3 e4 by (rule ext_trans)
      with Inr True tr unf punf mh s3 jm pmsg rd rr show ?thesis by (simp add: hbind_def)
    qed
  qed
next
  case (repr_List a vs js)
  then show ?thesis
    by (simp add: convert_h_def convert_api_conversation_def hbind_def bind_def h_get_def get_def)
qed (simp_all add: convert_h_def convert_api_conversation_def hbind_def bind_def h_get_def get_def)


lemma reads_as_repr: "reads_as n h v j \<Longrightarrow> repr h v j"
proof (induction n arbitrary: v j)
  case 0
  then show ?case by simp
next
  case (Suc n)
  show ?case
  proof (cases v)
    case (VRef a)
    with Suc.prems have a: "a < length h" by simp
    show ?thesis
    proof (cases "h ! a")
      case (CList vs)
      with Suc.prems VRef obtain js where j: "j = JList js" and l: "list_all2 (reads_as n h) vs js"
        by (cases j) auto
      from l have "list_all2 (repr h) vs js"
        by (rule list_all2_mono) (rule Suc.IH)
      with a CList have "repr h (VRef a) (JList js)" by (rule repr.repr_List)
      with VRef j show ?thesis by simp
    next
      case (CDict kvs)
      with Suc.prems VRef obtain kjs where j: "j = JObj kjs"
        and l: "list_all2 (\<lambda>kv kj. fst kv = fst kj \<and> reads_as n h (snd kv) (snd kj)) kvs kjs"
        by (cases j) auto
      from l have "list_all2 (\<lambda>kv kj. fst kv = fst kj \<and> repr h (snd kv) (snd kj)) kvs kjs"
        by (rule list_all2_mono) (auto intro: Suc.IH)
      with a CDict have "repr h (VRef a) (JObj kjs)" by (rule repr.repr_Dict)
      with VRef j show ?thesis by simp
    qed
  qed (use Suc.prems in \<open>auto intro: repr.intros\<close>)
qed

lemma hello_heap_repr: "repr hello_heap (VRef 0) (JObj hello_payload)"
proof (rule reads_as_repr)
  show "reads_as 8 hello_heap (VRef 0) (JObj hello_payload)" by code_simp
qed


end
